theory Spec2Isabelle
  imports Main "HOL-Library.Word"
begin

section \<open>Strings\<close>

text \<open>
  A TypeScript string is a sequence of UTF-16 code units. \<open>split\<close>, \<open>trim\<close>,
  template literals and \<open>===\<close> all work on that sequence, so a string is modelled as
  a list of 16-bit words.
\<close>

type_synonym jschar = "16 word"
type_synonym jsstring = "jschar list"

definition slash :: jschar where
  "slash = 0x2F"

text \<open>
  The characters removed by \<open>String.prototype.trim\<close>: the ECMAScript WhiteSpace and
  LineTerminator code points (all of them in the basic plane).
\<close>

definition isWhiteSpace :: "jschar \<Rightarrow> bool" where
  "isWhiteSpace c \<longleftrightarrow>
     c \<in> {0x9, 0xA, 0xB, 0xC, 0xD, 0x20, 0xA0, 0x1680, 0x2028, 0x2029, 0x202F, 0x205F,
           0x3000, 0xFEFF}
     \<or> (0x2000 \<le> c \<and> c \<le> 0x200A)"

definition trim :: "jsstring \<Rightarrow> jsstring" where
  "trim s = rev (dropWhile isWhiteSpace (rev (dropWhile isWhiteSpace s)))"

text \<open>\<open>s.split(sep)\<close> for a one-character separator: never the empty array.\<close>

fun split :: "jschar \<Rightarrow> jsstring \<Rightarrow> jsstring list" where
  "split sep [] = [[]]"
| "split sep (c # cs) =
     (if c = sep then [] # split sep cs
      else (case split sep cs of
              [] \<Rightarrow> [[c]]
            | w # ws \<Rightarrow> (c # w) # ws))"

text \<open>\<open>p.split("/").filter(Boolean)\<close>: the non-empty segments.\<close>

definition segments :: "jsstring \<Rightarrow> jsstring list" where
  "segments p = filter (\<lambda>s. s \<noteq> []) (split slash p)"

text \<open>\<open>parts.join("/")\<close>.\<close>

fun join :: "jsstring list \<Rightarrow> jsstring" where
  "join [] = []"
| "join [s] = s"
| "join (s # r # rs) = s @ [slash] @ join (r # rs)"

section \<open>Tags and the tag tree\<close>

text \<open>
  The fields of \<open>TagWithPermissions\<close> that the tree code reads. \<open>path\<close> may be
  absent or null, \<open>item_ids\<close> may be absent (the code reads \<open>t.item_ids || []\<close>).
\<close>

record Tag =
  tag_id :: jsstring
  tag_name :: jsstring
  tag_path :: "jsstring option"
  item_ids :: "jsstring list option"

text \<open>
  \<open>TagNode\<close>. \<open>children\<close> is a JavaScript \<open>Map\<close>, which iterates in insertion
  order: an association list, in insertion order.
\<close>

datatype TagNode =
  TagNode (name: jsstring) (full: jsstring)
          (children: "(jsstring \<times> TagNode) list") (tagsHere: "Tag list")

definition fullPath :: "Tag \<Rightarrow> jsstring" where
  "fullPath t =
     (case tag_path t of
        None \<Rightarrow> tag_name t
      | Some p \<Rightarrow> if p \<noteq> [] \<and> trim p \<noteq> [] then p @ [slash] @ tag_name t else tag_name t)"

section \<open>buildTree\<close>

text \<open>
  \<open>Map.prototype.set\<close>: replaces the value of an existing key where it stands, appends a
  new key. \<open>Map.prototype.get\<close> is \<open>map_of\<close>.
\<close>

fun mapSet :: "'k \<Rightarrow> 'v \<Rightarrow> ('k \<times> 'v) list \<Rightarrow> ('k \<times> 'v) list" where
  "mapSet k v [] = [(k, v)]"
| "mapSet k v ((k', v') # r) = (if k' = k then (k, v) # r else (k', v') # mapSet k v r)"

text \<open>
  The body of \<open>parts.forEach((seg, i) => ...)\<close> followed by \<open>cur.tagsHere.push(t)\<close>.
  The source walks down with a cursor and mutates the node it ends at; here the walk
  rebuilds the nodes on the way back. \<open>i\<close> is the index of the segment in \<open>parts\<close>.
\<close>

fun descend :: "Tag \<Rightarrow> nat \<Rightarrow> jsstring list \<Rightarrow> TagNode \<Rightarrow> TagNode" where
  "descend t i [] cur = TagNode (name cur) (full cur) (children cur) (tagsHere cur @ [t])"
| "descend t i (seg # rest) cur =
     (let child = (case map_of (children cur) seg of
                     None \<Rightarrow> TagNode seg (if i = 0 then seg else full cur @ [slash] @ seg) [] []
                   | Some c \<Rightarrow> c)
      in TagNode (name cur) (full cur)
           (mapSet seg (descend t (Suc i) rest child) (children cur)) (tagsHere cur))"

text \<open>One iteration of \<open>for (const t of tags)\<close>.\<close>

definition addTag :: "TagNode \<Rightarrow> Tag \<Rightarrow> TagNode" where
  "addTag root t = descend t 0 (segments (fullPath t)) root"

definition buildTree :: "Tag list \<Rightarrow> TagNode" where
  "buildTree tags = foldl addTag (TagNode [] [] [] []) tags"

section \<open>findNode\<close>

text \<open>The loop of \<open>findNode\<close>: an unknown segment falls back to the root.\<close>

fun findLoop :: "TagNode \<Rightarrow> TagNode \<Rightarrow> jsstring list \<Rightarrow> TagNode" where
  "findLoop root cur [] = cur"
| "findLoop root cur (seg # rest) =
     (case map_of (children cur) seg of
        None \<Rightarrow> root
      | Some next \<Rightarrow> findLoop root next rest)"

text \<open>\<open>path\<close> is \<open>string | undefined\<close>; \<open>!path\<close> holds for \<open>undefined\<close> and for \<open>""\<close>.\<close>

definition findNode :: "TagNode \<Rightarrow> jsstring option \<Rightarrow> TagNode" where
  "findNode root path =
     (case path of
        None \<Rightarrow> root
      | Some p \<Rightarrow> if p = [] then root else findLoop root root (segments p))"

section \<open>Aggregations\<close>

text \<open>
  \<open>Array.from(new Set(ids))\<close>: a \<open>Set\<close> iterates in insertion order, so every element
  stays at its first occurrence.
\<close>

fun dedupe :: "'a list \<Rightarrow> 'a list" where
  "dedupe [] = []"
| "dedupe (x # xs) = x # dedupe (filter (\<lambda>y. y \<noteq> x) xs)"

text \<open>The inner \<open>dfs\<close> of \<open>collectDescendantTagIds\<close>, returning what it pushes onto \<open>ids\<close>.\<close>

fun dfsIds :: "TagNode \<Rightarrow> jsstring list" where
  "dfsIds (TagNode nm fl chs ths) = map tag_id ths @ concat (map (\<lambda>kc. dfsIds (snd kc)) chs)"

definition collectDescendantTagIds :: "TagNode \<Rightarrow> jsstring list" where
  "collectDescendantTagIds node = dedupe (dfsIds node)"

text \<open>
  The inner \<open>dfs\<close> of \<open>countUniqueDocs\<close>, returning the ids it adds to \<open>docIds\<close>, in
  order; \<open>t.item_ids || []\<close> reads an absent list as empty.
\<close>

fun dfsDocs :: "TagNode \<Rightarrow> jsstring list" where
  "dfsDocs (TagNode nm fl chs ths) =
     concat (map (\<lambda>t. case item_ids t of None \<Rightarrow> [] | Some ids \<Rightarrow> ids) ths)
     @ concat (map (\<lambda>kc. dfsDocs (snd kc)) chs)"

definition countUniqueDocs :: "TagNode \<Rightarrow> nat" where
  "countUniqueDocs node = length (dedupe (dfsDocs node))"

section \<open>Positions in a tree\<close>

text \<open>The node reached from \<open>n\<close> by following the segments, if there is one.\<close>

fun nodeAt :: "TagNode \<Rightarrow> jsstring list \<Rightarrow> TagNode option" where
  "nodeAt n [] = Some n"
| "nodeAt n (seg # rest) =
     (case map_of (children n) seg of None \<Rightarrow> None | Some c \<Rightarrow> nodeAt c rest)"

text \<open>A node and all its descendants.\<close>

fun subnodes :: "TagNode \<Rightarrow> TagNode list" where
  "subnodes (TagNode nm fl chs ths) =
     TagNode nm fl chs ths # concat (map (\<lambda>kc. subnodes (snd kc)) chs)"

definition tagsAt :: "TagNode \<Rightarrow> jsstring list \<Rightarrow> Tag list" where
  "tagsAt n ps = (case nodeAt n ps of None \<Rightarrow> [] | Some m \<Rightarrow> tagsHere m)"

text \<open>A segment as \<open>split("/").filter(Boolean)\<close> produces it: non-empty, without a slash.\<close>

definition goodSeg :: "jsstring \<Rightarrow> bool" where
  "goodSeg s \<longleftrightarrow> s \<noteq> [] \<and> slash \<notin> set s"

text \<open>
  The invariant of the trees \<open>buildTree\<close> makes, for a node that sits at path \<open>pre\<close>:
  the keys of a \<open>Map\<close> are distinct, a child is stored under its own name, and \<open>full\<close>
  is the joined path.
\<close>

fun wfNode :: "jsstring list \<Rightarrow> TagNode \<Rightarrow> bool" where
  "wfNode pre (TagNode nm fl chs ths) \<longleftrightarrow>
     fl = join pre \<and> distinct (map fst chs) \<and>
     (\<forall>kc \<in> set chs. goodSeg (fst kc) \<and> name (snd kc) = fst kc \<and> wfNode (pre @ [fst kc]) (snd kc))"

section \<open>Example values\<close>

text \<open>Two tags: \<open>{id: "1", name: "b", path: "a"}\<close> and \<open>{id: "2", name: "a"}\<close>.\<close>

definition tA :: Tag where
  "tA = \<lparr>tag_id = [0x31], tag_name = [0x62], tag_path = Some [0x61], item_ids = None\<rparr>"

definition tB :: Tag where
  "tB = \<lparr>tag_id = [0x32], tag_name = [0x61], tag_path = None, item_ids = None\<rparr>"

text \<open>
  A folder \<open>a\<close> under the root: the root holds tag 3 (documents \<open>d\<close>, \<open>e\<close>), the
  folder holds tag 4 (document \<open>d\<close> again).
\<close>

definition tC :: Tag where
  "tC = \<lparr>tag_id = [0x33], tag_name = [0x63], tag_path = None,
          item_ids = Some [[0x64], [0x65]]\<rparr>"

definition tD :: Tag where
  "tD = \<lparr>tag_id = [0x34], tag_name = [0x61], tag_path = None, item_ids = Some [[0x64]]\<rparr>"

definition exNode :: TagNode where
  "exNode = TagNode [] [] [([0x61], TagNode [0x61] [0x61] [] [tD])] [tC]"

section \<open>Documents of a folder\<close>

text \<open>
  The fields of \<open>DocumentMetadata\<close> that the tree view reads: \<open>identity.document_uid\<close>
  and \<open>tags?.tag_ids\<close>, where \<open>tags\<close> and \<open>tag_ids\<close> may each be absent.
\<close>

record Tagging =
  tag_ids :: "jsstring list option"

record DocumentMetadata =
  document_uid :: jsstring
  doc_tags :: "Tagging option"

text \<open>\<open>d.tags?.tag_ids ?? []\<close>.\<close>

definition docTagIds :: "DocumentMetadata \<Rightarrow> jsstring list" where
  "docTagIds d =
     (case doc_tags d of
        None \<Rightarrow> []
      | Some tg \<Rightarrow> (case tag_ids tg of None \<Rightarrow> [] | Some ids \<Rightarrow> ids))"

text \<open>
  \<open>Record<string, DocumentMetadata[]>\<close> and \<open>Record<string, TagWithItemsId>\<close>, read
  at their own keys: the keys are tag ids and document uids issued by the backend.
\<close>

type_synonym docsByTag = "jsstring \<rightharpoonup> DocumentMetadata list"
type_synonym selection = "jsstring \<rightharpoonup> Tag"

definition getPrimaryTag :: "TagNode \<Rightarrow> Tag option" where
  "getPrimaryTag n = (case tagsHere n of [] \<Rightarrow> None | t # _ \<Rightarrow> Some t)"

text \<open>
  The body of the inner loops of \<open>getDocsForTags\<close> and \<open>docsInSubtree\<close> on the pair
  \<open>(out, seen)\<close>: a document whose uid was seen is skipped, another one is
  recorded and pushed.
\<close>

fun addDoc :: "DocumentMetadata list \<times> jsstring set \<Rightarrow> DocumentMetadata
                 \<Rightarrow> DocumentMetadata list \<times> jsstring set" where
  "addDoc (out, seen) doc =
     (if document_uid doc \<in> seen then (out, seen)
      else (out @ [doc], insert (document_uid doc) seen))"

definition getDocsForTags :: "jsstring list \<Rightarrow> docsByTag \<Rightarrow> DocumentMetadata list" where
  "getDocsForTags tagIds docsByTagId =
     (if tagIds = [] then []
      else fst (foldl (\<lambda>st tagId.
                  foldl addDoc st (case docsByTagId tagId of None \<Rightarrow> [] | Some docs \<Rightarrow> docs))
                ([], {}) tagIds))"

text \<open>\<open>(cur.tagsHere ?? []).map((t) => t.id).filter(Boolean)\<close>.\<close>

definition tagIdsHere :: "TagNode \<Rightarrow> jsstring list" where
  "tagIdsHere cur = filter (\<lambda>i. i \<noteq> []) (map tag_id (tagsHere cur))"

text \<open>
  The \<open>while (stack.length)\<close> loop of \<open>docsInSubtree\<close>. \<open>pop\<close> takes the last
  element of the stack and \<open>push\<close> appends. \<open>getChildren\<close> is a prop of the component,
  any function from nodes to lists of nodes, so the loop need not end: a run that never
  returns is \<open>None\<close>.
\<close>

partial_function (option) docsLoop ::
  "(TagNode \<Rightarrow> TagNode list) \<Rightarrow> docsByTag \<Rightarrow> TagNode list
     \<Rightarrow> DocumentMetadata list \<times> jsstring set \<Rightarrow> DocumentMetadata list option" where
  "docsLoop getChildren docsByTagId stack st =
     (if stack = [] then Some (fst st)
      else docsLoop getChildren docsByTagId (butlast stack @ getChildren (last stack))
             (foldl addDoc st (getDocsForTags (tagIdsHere (last stack)) docsByTagId)))"

definition docsInSubtree ::
  "TagNode \<Rightarrow> docsByTag \<Rightarrow> (TagNode \<Rightarrow> TagNode list) \<Rightarrow> DocumentMetadata list option" where
  "docsInSubtree root docsByTagId getChildren = docsLoop getChildren docsByTagId [root] ([], {})"

text \<open>A \<open>getChildren\<close> that returns children of its argument only, in any order.\<close>

definition childrenOnly :: "(TagNode \<Rightarrow> TagNode list) \<Rightarrow> bool" where
  "childrenOnly getChildren \<longleftrightarrow> (\<forall>n. set (getChildren n) \<subseteq> snd ` set (children n))"

text \<open>The children in the order of the \<open>Map\<close>.\<close>

definition mapChildren :: "TagNode \<Rightarrow> TagNode list" where
  "mapChildren n = map snd (children n)"

text \<open>What the loops keep true of \<open>(out, seen)\<close>: the uids of \<open>out\<close> are distinct and all seen.\<close>

definition seenInv :: "DocumentMetadata list \<times> jsstring set \<Rightarrow> bool" where
  "seenInv st \<longleftrightarrow> distinct (map document_uid (fst st)) \<and> document_uid ` set (fst st) \<subseteq> snd st"

text \<open>Running the loop with \<open>n\<close> on top of the stack comes back to the stack below \<open>n\<close>.\<close>

definition returnsBelow :: "(TagNode \<Rightarrow> TagNode list) \<Rightarrow> docsByTag \<Rightarrow> TagNode \<Rightarrow> bool" where
  "returnsBelow getChildren docsByTagId n \<longleftrightarrow>
     (\<forall>rest st. \<exists>st'. docsLoop getChildren docsByTagId (rest @ [n]) st
                         = docsLoop getChildren docsByTagId rest st')"

section \<open>Example documents\<close>

text \<open>
  Folder \<open>f\<close> with tag 5 and a subfolder \<open>g\<close> with tag 6. Document \<open>x\<close> carries
  both tags, document \<open>y\<close> tag 5 only; both are loaded under tag 5 and \<open>x\<close> under
  tag 6 as well.
\<close>

definition tF :: Tag where
  "tF = \<lparr>tag_id = [0x35], tag_name = [0x66], tag_path = None, item_ids = None\<rparr>"

definition tG :: Tag where
  "tG = \<lparr>tag_id = [0x36], tag_name = [0x67], tag_path = Some [0x66], item_ids = None\<rparr>"

definition dX :: DocumentMetadata where
  "dX = \<lparr>document_uid = [0x78], doc_tags = Some \<lparr>tag_ids = Some [[0x35], [0x36]]\<rparr>\<rparr>"

definition dY :: DocumentMetadata where
  "dY = \<lparr>document_uid = [0x79], doc_tags = Some \<lparr>tag_ids = Some [[0x35]]\<rparr>\<rparr>"

definition exDocs :: docsByTag where
  "exDocs = [[0x35] \<mapsto> [dX, dY], [0x36] \<mapsto> [dX]]"

definition exFolder :: TagNode where
  "exFolder = TagNode [0x66] [0x66] [([0x67], TagNode [0x67] [0x66, 0x2F, 0x67] [] [tG])] [tF]"

section \<open>Selection in the document tree view\<close>

text \<open>\<open>sel[uid]?.id === tagId\<close>: the document is selected, and under this tag.\<close>

definition selectedUnder :: "selection \<Rightarrow> jsstring \<Rightarrow> jsstring \<Rightarrow> bool" where
  "selectedUnder sel tagId uid = (case sel uid of None \<Rightarrow> False | Some tg \<Rightarrow> tag_id tg = tagId)"

text \<open>\<open>subtree.filter((d) => (d.tags?.tag_ids ?? []).includes(tag.id))\<close>.\<close>

definition eligibleDocs :: "Tag \<Rightarrow> DocumentMetadata list \<Rightarrow> DocumentMetadata list" where
  "eligibleDocs tag subtree = filter (\<lambda>d. tag_id tag \<in> set (docTagIds d)) subtree"

subsection \<open>toggleFolderSelection\<close>

text \<open>
  The updater that \<open>toggleFolderSelection\<close> hands to \<open>setSelectedDocs\<close>: \<open>next\<close> starts
  as a copy of \<open>prev\<close>; \<open>delete next[id]\<close> removes a key.
\<close>

definition toggleUpdater :: "Tag \<Rightarrow> DocumentMetadata list \<Rightarrow> selection \<Rightarrow> selection" where
  "toggleUpdater tag eligible prev =
     (let anySelectedHere =
            list_ex (\<lambda>d. selectedUnder prev (tag_id tag) (document_uid d)) eligible
      in if anySelectedHere
         then foldl (\<lambda>next d. if selectedUnder next (tag_id tag) (document_uid d)
                               then next(document_uid d := None) else next) prev eligible
         else foldl (\<lambda>next d. next(document_uid d \<mapsto> tag)) prev eligible)"

text \<open>
  The selection after \<open>toggleFolderSelection(node)\<close>, from the selection before it. The
  two early returns leave the selection as it is; \<open>None\<close> is a call that does not
  return because \<open>docsInSubtree\<close> does not.
\<close>

definition toggleFolderSelection ::
  "TagNode \<Rightarrow> docsByTag \<Rightarrow> (TagNode \<Rightarrow> TagNode list) \<Rightarrow> selection \<Rightarrow> selection option" where
  "toggleFolderSelection node documentsByTagId getChildren prev =
     (case getPrimaryTag node of
        None \<Rightarrow> Some prev
      | Some tag \<Rightarrow>
          (case docsInSubtree node documentsByTagId getChildren of
             None \<Rightarrow> None
           | Some subtree \<Rightarrow>
               (let eligible = eligibleDocs tag subtree
                in if eligible = [] then Some prev
                   else Some (toggleUpdater tag eligible prev))))"

subsection \<open>The folder checkbox\<close>

text \<open>
  The totals (\<open>perTagTotals\<close>, \<open>selectedFolderTotal\<close>) are document counts and are
  modelled as integers. \<open>perTagTotals\<close> is an optional prop.
\<close>

definition cachedTotal :: "Tag option \<Rightarrow> (jsstring \<rightharpoonup> int) option \<Rightarrow> int option" where
  "cachedTotal folderTag perTagTotals =
     (case folderTag of
        None \<Rightarrow> None
      | Some ft \<Rightarrow> (case perTagTotals of None \<Rightarrow> None | Some totals \<Rightarrow> totals (tag_id ft)))"

definition selectionTotalForTag ::
  "Tag option \<Rightarrow> bool \<Rightarrow> int option \<Rightarrow> int option \<Rightarrow> DocumentMetadata list \<Rightarrow> int" where
  "selectionTotalForTag folderTag isSelected selectedFolderTotal cached eligible =
     (case folderTag of
        None \<Rightarrow> 0
      | Some ft \<Rightarrow>
          (case (if isSelected then selectedFolderTotal else None) of
             Some known \<Rightarrow> known
           | None \<Rightarrow> (case cached of Some c \<Rightarrow> c | None \<Rightarrow> int (length eligible))))"

definition selectedForTag :: "Tag option \<Rightarrow> selection \<Rightarrow> DocumentMetadata list \<Rightarrow> nat" where
  "selectedForTag folderTag selectedDocs eligible =
     (case folderTag of
        None \<Rightarrow> 0
      | Some ft \<Rightarrow>
          length (filter (\<lambda>d. selectedUnder selectedDocs (tag_id ft) (document_uid d)) eligible))"

record FolderBox =
  folderChecked :: bool
  folderIndeterminate :: bool

text \<open>
  The tri-state of the checkbox of folder \<open>c\<close> as \<open>renderTree\<close> computes it;
  \<open>selectedFolder\<close> is \<open>string | null\<close>.
\<close>

definition folderCheckbox ::
  "TagNode \<Rightarrow> docsByTag \<Rightarrow> (TagNode \<Rightarrow> TagNode list) \<Rightarrow> (jsstring \<rightharpoonup> int) option
     \<Rightarrow> jsstring option \<Rightarrow> int option \<Rightarrow> selection \<Rightarrow> FolderBox option" where
  "folderCheckbox c documentsByTagId getChildren perTagTotals selectedFolder selectedFolderTotal
       selectedDocs =
     (case docsInSubtree c documentsByTagId getChildren of
        None \<Rightarrow> None
      | Some subtreeDocs \<Rightarrow>
          (let folderTag = getPrimaryTag c;
               isSelected = (selectedFolder = Some (full c));
               eligible = (case folderTag of None \<Rightarrow> [] | Some ft \<Rightarrow> eligibleDocs ft subtreeDocs);
               selTotal = selectionTotalForTag folderTag isSelected selectedFolderTotal
                            (cachedTotal folderTag perTagTotals) eligible;
               selCount = selectedForTag folderTag selectedDocs eligible
           in Some \<lparr>folderChecked = (0 < selTotal \<and> int selCount = selTotal),
                    folderIndeterminate = (0 < selCount \<and> int selCount < selTotal)\<rparr>))"

subsection \<open>The checkbox of a document row\<close>

text \<open>
  The selection after a click on the checkbox of the row of document \<open>docId\<close> in a
  folder whose primary tag is \<open>tag\<close>; without a tag the handler returns at once.
\<close>

definition docCheckboxClick :: "Tag option \<Rightarrow> jsstring \<Rightarrow> selection \<Rightarrow> selection" where
  "docCheckboxClick tag docId prev =
     (case tag of
        None \<Rightarrow> prev
      | Some tg \<Rightarrow>
          if selectedUnder prev (tag_id tg) docId then prev(docId := None)
          else prev(docId \<mapsto> tg))"

section \<open>Sharing a tag\<close>

text \<open>
  A pending recipient (a \<open>TagShareRequest\<close>): the fields \<open>handleAddRecipient\<close> and the
  request read.
\<close>

record Recipient =
  target_id :: jsstring
  relation :: jsstring

text \<open>
  What \<open>shareTag(...).unwrap()\<close> rejects with, as far as the \<open>catch\<close> block looks at
  it. A status is a number or a string such as \<open>"FETCH_ERROR"\<close>. A field that is
  absent, or \<open>data\<close> that is not an object, is \<open>None\<close>; \<open>detail\<close> is \<open>Some\<close> exactly
  when \<open>typeof detail === "string"\<close>.
\<close>

datatype jsStatus = StatusNum int | StatusStr jsstring

record ErrorData =
  data_status :: "jsStatus option"
  detail :: "jsstring option"

record ShareError =
  status :: "jsStatus option"
  originalStatus :: "jsStatus option"
  data :: "ErrorData option"

text \<open>The state of \<open>DocumentLibraryShareAddTab\<close> (its four \<open>useState\<close> cells).\<close>

record ShareState =
  searchQuery :: jsstring
  pendingRecipients :: "Recipient list"
  isSharing :: bool
  shareError :: "jsstring option"

text \<open>
  The \<open>for\<close> loop of the \<open>try\<close> block: the requests are awaited one after the other
  and the first rejection leaves the loop. \<open>shareTag r\<close> is \<open>None\<close> when the request
  for \<open>r\<close> succeeds and the error it rejects with otherwise.
\<close>

fun shareAll :: "(Recipient \<Rightarrow> ShareError option) \<Rightarrow> Recipient list \<Rightarrow> ShareError option" where
  "shareAll shareTag [] = None"
| "shareAll shareTag (r # rs) =
     (case shareTag r of Some e \<Rightarrow> Some e | None \<Rightarrow> shareAll shareTag rs)"

text \<open>\<open>error?.status ?? error?.originalStatus ?? error?.data?.status\<close>.\<close>

definition errorStatus :: "ShareError \<Rightarrow> jsStatus option" where
  "errorStatus e =
     (case status e of
        Some s \<Rightarrow> Some s
      | None \<Rightarrow>
          (case originalStatus e of
             Some s \<Rightarrow> Some s
           | None \<Rightarrow> (case data e of None \<Rightarrow> None | Some d \<Rightarrow> data_status d)))"

text \<open>
  The message of the \<open>catch\<close> block. \<open>tForbidden\<close> and \<open>tShareError\<close> are the strings
  the translation function \<open>t\<close> returns for the keys \<open>shareForbidden\<close> and
  \<open>shareError\<close>; \<open>a && b || c\<close> takes \<open>c\<close> when \<open>b\<close> is the empty string.
\<close>

definition errorMessage :: "jsstring \<Rightarrow> jsstring \<Rightarrow> ShareError \<Rightarrow> jsstring" where
  "errorMessage tForbidden tShareError e =
     (let isForbidden = (errorStatus e = Some (StatusNum 403));
          message = (if isForbidden \<and> tForbidden \<noteq> [] then tForbidden else tShareError)
      in case data e of
           None \<Rightarrow> message
         | Some d \<Rightarrow> (case detail d of None \<Rightarrow> message | Some s \<Rightarrow> s))"

text \<open>
  \<open>handleShare\<close>, from the state it is called in to the state it leaves. The \<open>catch\<close>
  block catches whatever the \<open>try\<close> block throws and neither it nor the \<open>finally\<close>
  block throws, so the function always returns a state. \<open>onShared\<close> is the optional
  callback: \<open>None\<close> when it is absent or returns, the exception when it throws one.
\<close>

definition handleShare ::
  "jsstring \<Rightarrow> jsstring \<Rightarrow> (Recipient \<Rightarrow> ShareError option) \<Rightarrow> ShareError option
     \<Rightarrow> ShareState \<Rightarrow> ShareState" where
  "handleShare tForbidden tShareError shareTag onShared st =
     (if pendingRecipients st = [] then st
      else
        (let st1 = st\<lparr>isSharing := True, shareError := None\<rparr>;
             st2 = (case shareAll shareTag (pendingRecipients st) of
                      Some e \<Rightarrow> st1\<lparr>shareError := Some (errorMessage tForbidden tShareError e)\<rparr>
                    | None \<Rightarrow>
                        (let st' = st1\<lparr>pendingRecipients := [], searchQuery := []\<rparr>
                         in case onShared of
                              None \<Rightarrow> st'
                            | Some e \<Rightarrow>
                                st'\<lparr>shareError := Some (errorMessage tForbidden tShareError e)\<rparr>))
         in st2\<lparr>isSharing := False\<rparr>))"

text \<open>\<open>{shareError ? <Alert ...>{shareError}</Alert> : null}\<close>: the alert is rendered.\<close>

definition alertShown :: "ShareState \<Rightarrow> bool" where
  "alertShown st = (case shareError st of None \<Rightarrow> False | Some m \<Rightarrow> m \<noteq> [])"

subsection \<open>Example values\<close>

text \<open>
  One pending recipient, the query \<open>"q"\<close>; a server that rejects every request with
  the same error; an error with status 400 and the empty string as \<open>detail\<close>, and a
  403 without \<open>data\<close>. The translations are \<open>"F"\<close> and \<open>"E"\<close>.
\<close>

definition r1 :: Recipient where
  "r1 = \<lparr>target_id = [0x75], relation = [0x76]\<rparr>"

definition st0 :: ShareState where
  "st0 = \<lparr>searchQuery = [0x71], pendingRecipients = [r1], isSharing = False, shareError = None\<rparr>"

definition failWith :: "ShareError \<Rightarrow> Recipient \<Rightarrow> ShareError option" where
  "failWith e r = Some e"

definition eEmptyDetail :: ShareError where
  "eEmptyDetail = \<lparr>status = Some (StatusNum 400), originalStatus = None,
                    data = Some \<lparr>data_status = None, detail = Some []\<rparr>\<rparr>"

definition eForbidden :: ShareError where
  "eForbidden = \<lparr>status = Some (StatusNum 403), originalStatus = None, data = None\<rparr>"

section \<open>Properties of the string helpers\<close>

lemma trim_empty_iff: "trim s = [] \<longleftrightarrow> (\<forall>c \<in> set s. isWhiteSpace c)"
proof
  assume "trim s = []"
  then have "dropWhile isWhiteSpace (rev (dropWhile isWhiteSpace s)) = []"
    by (simp add: trim_def)
  then have "\<forall>c \<in> set (rev (dropWhile isWhiteSpace s)). isWhiteSpace c"
    by simp
  then have all: "\<forall>c \<in> set (dropWhile isWhiteSpace s). isWhiteSpace c"
    by simp
  have "dropWhile isWhiteSpace s = []"
  proof (cases "dropWhile isWhiteSpace s")
    case Nil
    then show ?thesis .
  next
    case (Cons c cs)
    then have "\<not> isWhiteSpace c"
      using hd_dropWhile [of isWhiteSpace s] by auto
    moreover have "isWhiteSpace c"
      using all Cons by simp
    ultimately show ?thesis by simp
  qed
  then show "\<forall>c \<in> set s. isWhiteSpace c"
    by simp
next
  assume "\<forall>c \<in> set s. isWhiteSpace c"
  then show "trim s = []"
    by (auto simp: trim_def dest: set_dropWhileD)
qed

section \<open>fullPath\<close>

text \<open>
  C8. \<open>fullPath t\<close> is \<open>t.path + "/" + t.name\<close> when \<open>t.path\<close> is present and has
  at least one non-whitespace character, and \<open>t.name\<close> when \<open>t.path\<close> is absent,
  empty or whitespace-only.
\<close>

theorem fullPath_spec:
  "fullPath t =
     (case tag_path t of
        None \<Rightarrow> tag_name t
      | Some p \<Rightarrow> if (\<exists>c \<in> set p. \<not> isWhiteSpace c) then p @ [slash] @ tag_name t
                 else tag_name t)"
proof (cases "tag_path t")
  case None
  then show ?thesis by (simp add: fullPath_def)
next
  case (Some p)
  have "(p \<noteq> [] \<and> trim p \<noteq> []) \<longleftrightarrow> (\<exists>c \<in> set p. \<not> isWhiteSpace c)"
    using trim_empty_iff [of p] by auto
  with Some show ?thesis by (simp add: fullPath_def)
qed

theorem fullPath_spec_witness:
  "fullPath \<lparr>tag_id = [0x31], tag_name = [0x62], tag_path = Some [0x20, 0x61], item_ids = None\<rparr>
     = [0x20, 0x61, 0x2F, 0x62]
   \<and> fullPath \<lparr>tag_id = [0x31], tag_name = [0x62], tag_path = Some [0x20, 0x9], item_ids = None\<rparr>
     = [0x62]"
  using fullPath_spec [of "\<lparr>tag_id = [0x31], tag_name = [0x62], tag_path = Some [0x20, 0x61], item_ids = None\<rparr>"]
        fullPath_spec [of "\<lparr>tag_id = [0x31], tag_name = [0x62], tag_path = Some [0x20, 0x9], item_ids = None\<rparr>"]
  by (simp add: isWhiteSpace_def slash_def)

section \<open>The tree that buildTree makes\<close>

lemma map_of_mapSet: "map_of (mapSet k v chs) k' = (if k' = k then Some v else map_of chs k')"
  by (induction chs) auto

lemma keys_mapSet:
  "map fst (mapSet k v chs) = (if k \<in> fst ` set chs then map fst chs else map fst chs @ [k])"
  by (induction chs) (force simp: image_iff)+

lemma distinct_mapSet: "distinct (map fst chs) \<Longrightarrow> distinct (map fst (mapSet k v chs))"
  by (simp add: keys_mapSet)

lemma set_mapSet:
  "distinct (map fst chs) \<Longrightarrow> kc \<in> set (mapSet k v chs) \<Longrightarrow>
     kc = (k, v) \<or> (fst kc \<noteq> k \<and> kc \<in> set chs)"
  by (induction chs) (force split: if_splits simp: image_iff)+

lemma name_descend [simp]: "name (descend t i segs cur) = name cur"
  by (cases segs) (simp_all add: Let_def)

lemma full_descend [simp]: "full (descend t i segs cur) = full cur"
  by (cases segs) (simp_all add: Let_def)

lemma join_snoc: "join (pre @ [s]) = (if pre = [] then s else join pre @ [slash] @ s)"
  by (induction pre rule: join.induct) auto

lemma wfNode_sel:
  "wfNode pre n \<longleftrightarrow>
     full n = join pre \<and> distinct (map fst (children n)) \<and>
     (\<forall>kc \<in> set (children n). goodSeg (fst kc) \<and> name (snd kc) = fst kc \<and> wfNode (pre @ [fst kc]) (snd kc))"
  by (cases n) simp

lemma wfNode_descend:
  "wfNode pre cur \<Longrightarrow> i = length pre \<Longrightarrow> \<forall>s \<in> set segs. goodSeg s \<Longrightarrow>
     wfNode pre (descend t i segs cur)"
proof (induction segs arbitrary: pre cur i)
  case Nil
  then show ?case by (cases cur) simp
next
  case (Cons seg rest)
  define child where "child = (case map_of (children cur) seg of
                     None \<Rightarrow> TagNode seg (if i = 0 then seg else full cur @ [slash] @ seg) [] []
                   | Some c \<Rightarrow> c)"
  have cur: "full cur = join pre" "distinct (map fst (children cur))"
    and chs: "\<And>kc. kc \<in> set (children cur) \<Longrightarrow>
                goodSeg (fst kc) \<and> name (snd kc) = fst kc \<and> wfNode (pre @ [fst kc]) (snd kc)"
    using Cons.prems(1) by (simp_all add: wfNode_sel [of pre cur])
  have child: "wfNode (pre @ [seg]) child \<and> name child = seg"
  proof (cases "map_of (children cur) seg")
    case None
    then show ?thesis
      using cur Cons.prems(2) by (simp add: child_def join_snoc)
  next
    case (Some c)
    then have "(seg, c) \<in> set (children cur)" by (rule map_of_SomeD)
    from chs [OF this] Some show ?thesis by (simp add: child_def)
  qed
  have rec: "wfNode (pre @ [seg]) (descend t (Suc i) rest child)"
    using Cons.IH [of "pre @ [seg]" child "Suc i"] child Cons.prems by simp
  have "\<forall>kc \<in> set (mapSet seg (descend t (Suc i) rest child) (children cur)).
          goodSeg (fst kc) \<and> name (snd kc) = fst kc \<and> wfNode (pre @ [fst kc]) (snd kc)"
  proof
    fix kc assume "kc \<in> set (mapSet seg (descend t (Suc i) rest child) (children cur))"
    from set_mapSet [OF cur(2) this]
    show "goodSeg (fst kc) \<and> name (snd kc) = fst kc \<and> wfNode (pre @ [fst kc]) (snd kc)"
      using rec child chs [of kc] Cons.prems(3) by (cases kc) auto
  qed
  then show ?case
    using cur by (simp add: child_def [symmetric] distinct_mapSet)
qed

lemma nodeAt_fresh: "nodeAt (TagNode nm fl [] ths) ps = (if ps = [] then Some (TagNode nm fl [] ths) else None)"
  by (cases ps) simp_all

lemma nodeAt_descend_None:
  "nodeAt (descend t i segs cur) ps = None \<longleftrightarrow>
     nodeAt cur ps = None \<and> (\<forall>r. segs \<noteq> ps @ r)"
proof (induction segs arbitrary: cur i ps)
  case Nil
  then show ?case by (cases ps) simp_all
next
  case (Cons seg rest)
  show ?case
  proof (cases ps)
    case Nil
    then show ?thesis by (simp add: Let_def)
  next
    case (Cons q qs)
    show ?thesis
    proof (cases "q = seg")
      case False
      then show ?thesis using Cons by (simp add: Let_def map_of_mapSet)
    next
      case True
      then show ?thesis
        using Cons Cons.IH [of "Suc i" _ qs]
        by (cases "map_of (children cur) seg") (auto simp: Let_def map_of_mapSet nodeAt_fresh)
    qed
  qed
qed

lemma tagsAt_descend:
  "tagsAt (descend t i segs cur) ps = tagsAt cur ps @ (if ps = segs then [t] else [])"
proof (induction segs arbitrary: cur i ps)
  case Nil
  then show ?case by (cases ps) (simp_all add: tagsAt_def)
next
  case (Cons seg rest)
  show ?case
  proof (cases ps)
    case Nil
    then show ?thesis by (simp add: Let_def tagsAt_def)
  next
    case (Cons q qs)
    show ?thesis
    proof (cases "q = seg")
      case False
      then show ?thesis using Cons by (simp add: Let_def map_of_mapSet tagsAt_def)
    next
      case True
      then show ?thesis
        using Cons Cons.IH [of "Suc i" _ qs]
        by (cases "map_of (children cur) seg")
           (auto simp: Let_def map_of_mapSet nodeAt_fresh tagsAt_def)
    qed
  qed
qed

lemma split_nonempty: "split sep s \<noteq> []"
  by (induction s) (auto split: list.splits)

lemma split_free: "w \<in> set (split sep s) \<Longrightarrow> sep \<notin> set w"
  by (induction s arbitrary: w) (auto split: if_splits list.splits)

lemma segments_good: "s \<in> set (segments p) \<Longrightarrow> goodSeg s"
  by (auto simp: segments_def goodSeg_def dest: split_free)

lemma split_single: "sep \<notin> set w \<Longrightarrow> split sep w = [w]"
  by (induction w) auto

lemma split_append: "sep \<notin> set w \<Longrightarrow> split sep (w @ sep # r) = w # split sep r"
  by (induction w) auto

lemma split_join:
  "ps \<noteq> [] \<Longrightarrow> \<forall>s \<in> set ps. slash \<notin> set s \<Longrightarrow> split slash (join ps) = ps"
  by (induction ps rule: join.induct) (simp_all add: split_single split_append)

lemma segments_join: "\<forall>s \<in> set ps. goodSeg s \<Longrightarrow> segments (join ps) = ps"
proof (cases "ps = []")
  case True
  then show ?thesis by (simp add: segments_def)
next
  case False
  assume good: "\<forall>s \<in> set ps. goodSeg s"
  then have "split slash (join ps) = ps"
    using False by (simp add: split_join goodSeg_def)
  moreover have "filter (\<lambda>s. s \<noteq> []) ps = ps"
    using good by (auto simp: goodSeg_def filter_id_conv)
  ultimately show ?thesis by (simp add: segments_def)
qed

lemma join_nonempty: "ps \<noteq> [] \<Longrightarrow> \<forall>s \<in> set ps. goodSeg s \<Longrightarrow> join ps \<noteq> []"
  by (induction ps rule: join.induct) (simp_all add: goodSeg_def)

lemma wfNode_foldl: "wfNode [] r \<Longrightarrow> wfNode [] (foldl addTag r tags)"
  by (induction tags arbitrary: r) (simp_all add: addTag_def wfNode_descend segments_good)

lemma tagsAt_foldl:
  "tagsAt (foldl addTag r tags) ps = tagsAt r ps @ filter (\<lambda>t. segments (fullPath t) = ps) tags"
  by (induction tags arbitrary: r) (auto simp: addTag_def tagsAt_descend)

lemma nodeAt_foldl_None:
  "nodeAt (foldl addTag r tags) ps = None \<longleftrightarrow>
     nodeAt r ps = None \<and> (\<forall>t \<in> set tags. \<forall>q. segments (fullPath t) \<noteq> ps @ q)"
  by (induction tags arbitrary: r) (auto simp: addTag_def nodeAt_descend_None)

lemma wfNode_nodeAt:
  "wfNode pre r \<Longrightarrow> nodeAt r ps = Some n \<Longrightarrow>
     wfNode (pre @ ps) n \<and> (\<forall>s \<in> set ps. goodSeg s) \<and> (ps \<noteq> [] \<longrightarrow> name n = last ps)"
proof (induction ps arbitrary: r pre)
  case Nil
  then show ?case by simp
next
  case (Cons q qs)
  from Cons.prems(2) obtain c where c: "map_of (children r) q = Some c" "nodeAt c qs = Some n"
    by (auto split: option.splits)
  then have "(q, c) \<in> set (children r)" by (simp add: map_of_SomeD)
  then have qc: "goodSeg q" "name c = q" "wfNode (pre @ [q]) c"
    using Cons.prems(1) by (auto simp: wfNode_sel [of pre r])
  from Cons.IH [OF qc(3) c(2)] qc(1,2) c(2) show ?case
    by (cases qs) auto
qed

lemma nodeAt_subnodes: "nodeAt r ps = Some n \<Longrightarrow> n \<in> set (subnodes r)"
proof (induction ps arbitrary: r)
  case Nil
  then show ?case by (cases r) auto
next
  case (Cons q qs)
  from Cons.prems obtain c where c: "map_of (children r) q = Some c" "nodeAt c qs = Some n"
    by (auto split: option.splits)
  then have "(q, c) \<in> set (children r)" by (simp add: map_of_SomeD)
  with Cons.IH [OF c(2)] show ?case by (cases r) force
qed

lemma subnodes_nodeAt:
  "wfNode pre r \<Longrightarrow> n \<in> set (subnodes r) \<Longrightarrow> \<exists>ps. nodeAt r ps = Some n"
proof (induction pre r rule: wfNode.induct)
  case (1 pre nm fl chs ths)
  show ?case
  proof (cases "n = TagNode nm fl chs ths")
    case True
    then have "nodeAt (TagNode nm fl chs ths) [] = Some n" by simp
    then show ?thesis by blast
  next
    case False
    with "1.prems"(2) obtain kc where kc: "kc \<in> set chs" "n \<in> set (subnodes (snd kc))"
      by auto
    with "1.prems"(1) have "wfNode (pre @ [fst kc]) (snd kc)" by simp
    from "1.IH" [OF kc(1) this kc(2)] obtain ps where ps: "nodeAt (snd kc) ps = Some n" by blast
    have "map_of chs (fst kc) = Some (snd kc)"
      using "1.prems"(1) kc(1) by (cases kc) simp
    with ps have "nodeAt (TagNode nm fl chs ths) (fst kc # ps) = Some n" by simp
    then show ?thesis by blast
  qed
qed

lemma nodeAt_append:
  "nodeAt r (ps @ qs) = Some n \<Longrightarrow> \<exists>m. nodeAt r ps = Some m \<and> nodeAt m qs = Some n"
  by (induction ps arbitrary: r) (auto split: option.splits)

lemma wfNode_buildTree: "wfNode [] (buildTree tags)"
  by (simp add: buildTree_def wfNode_foldl)

lemma nodeAt_buildTree_full:
  assumes "nodeAt (buildTree tags) ps = Some n"
  shows "full n = join ps" and "\<forall>s \<in> set ps. goodSeg s" and "ps \<noteq> [] \<Longrightarrow> name n = last ps"
proof -
  from wfNode_nodeAt [OF wfNode_buildTree assms]
  have *: "wfNode ps n" "\<forall>s \<in> set ps. goodSeg s" "ps \<noteq> [] \<longrightarrow> name n = last ps"
    by simp_all
  from *(1) show "full n = join ps" by (simp add: wfNode_sel [of ps n])
  from *(2) show "\<forall>s \<in> set ps. goodSeg s" .
  from *(3) show "ps \<noteq> [] \<Longrightarrow> name n = last ps" by simp
qed

lemma nodeAt_buildTree_inj:
  assumes "nodeAt (buildTree tags) ps = Some n" and "nodeAt (buildTree tags) qs = Some n"
  shows "ps = qs"
proof -
  have "join ps = join qs"
    using nodeAt_buildTree_full(1) [OF assms(1)] nodeAt_buildTree_full(1) [OF assms(2)] by simp
  then have "segments (join ps) = segments (join qs)" by simp
  then show ?thesis
    using nodeAt_buildTree_full(2) [OF assms(1)] nodeAt_buildTree_full(2) [OF assms(2)]
    by (simp add: segments_join)
qed

lemma nodeAt_buildTree_tags:
  assumes "nodeAt (buildTree tags) ps = Some n"
  shows "tagsHere n = filter (\<lambda>t. segments (fullPath t) = ps) tags"
  using tagsAt_foldl [of "TagNode [] [] [] []" tags ps] assms
  by (simp add: buildTree_def tagsAt_def nodeAt_fresh split: if_splits)

lemma nodeAt_buildTree_exists:
  assumes "t \<in> set tags"
  shows "\<exists>n. nodeAt (buildTree tags) (segments (fullPath t)) = Some n"
proof -
  have "segments (fullPath t) = segments (fullPath t) @ []" by simp
  with assms have "\<not> (\<forall>u \<in> set tags. \<forall>q. segments (fullPath u) \<noteq> segments (fullPath t) @ q)"
    by blast
  then have "nodeAt (buildTree tags) (segments (fullPath t)) \<noteq> None"
    by (simp only: buildTree_def nodeAt_foldl_None) blast
  then show ?thesis by auto
qed

text \<open>
  C1. For every list of tags, \<open>buildTree\<close> returns a root with empty name and empty
  full path; every input tag \<open>t\<close> has a node at the non-empty segments of
  \<open>fullPath t\<close> and is in \<open>tagsHere\<close> of that node and of no other node of the tree
  (the node at a path holds, in input order, the tags whose segments are that path);
  every node of the tree is reached from the root by a path, its \<open>full\<close> is that
  path joined with \<open>"/"\<close>, and the names of the nodes along the path are its segments.
\<close>

theorem buildTree_spec:
  "name (buildTree tags) = [] \<and> full (buildTree tags) = []
   \<and> (\<forall>t \<in> set tags. \<exists>n. nodeAt (buildTree tags) (segments (fullPath t)) = Some n)
   \<and> (\<forall>t \<in> set tags. \<forall>n \<in> set (subnodes (buildTree tags)).
         t \<in> set (tagsHere n) \<longleftrightarrow> nodeAt (buildTree tags) (segments (fullPath t)) = Some n)
   \<and> (\<forall>ps n. nodeAt (buildTree tags) ps = Some n \<longrightarrow>
         tagsHere n = filter (\<lambda>t. segments (fullPath t) = ps) tags)
   \<and> (\<forall>n \<in> set (subnodes (buildTree tags)). \<exists>ps. nodeAt (buildTree tags) ps = Some n)
   \<and> (\<forall>ps n. nodeAt (buildTree tags) ps = Some n \<longrightarrow>
         full n = join ps \<and>
         (\<forall>k < length ps. \<exists>m. nodeAt (buildTree tags) (take (Suc k) ps) = Some m \<and> name m = ps ! k))"
proof (intro conjI ballI allI impI)
  have root: "nodeAt (buildTree tags) [] = Some (buildTree tags)" by simp
  show "full (buildTree tags) = []"
    using nodeAt_buildTree_full(1) [OF root] by simp
  show "name (buildTree tags) = []"
    unfolding buildTree_def by (induction tags rule: rev_induct) (simp_all add: addTag_def)
next
  fix t assume "t \<in> set tags"
  then show "\<exists>n. nodeAt (buildTree tags) (segments (fullPath t)) = Some n"
    by (rule nodeAt_buildTree_exists)
next
  fix t n assume t: "t \<in> set tags" and n: "n \<in> set (subnodes (buildTree tags))"
  from subnodes_nodeAt [OF wfNode_buildTree n]
  obtain ps where ps: "nodeAt (buildTree tags) ps = Some n" by blast
  have tags: "tagsHere n = filter (\<lambda>t. segments (fullPath t) = ps) tags"
    by (rule nodeAt_buildTree_tags [OF ps])
  show "t \<in> set (tagsHere n) \<longleftrightarrow> nodeAt (buildTree tags) (segments (fullPath t)) = Some n"
  proof
    assume "t \<in> set (tagsHere n)"
    with tags have "segments (fullPath t) = ps" by simp
    with ps show "nodeAt (buildTree tags) (segments (fullPath t)) = Some n" by simp
  next
    assume "nodeAt (buildTree tags) (segments (fullPath t)) = Some n"
    from nodeAt_buildTree_inj [OF this ps] t tags show "t \<in> set (tagsHere n)" by simp
  qed
next
  fix ps n assume "nodeAt (buildTree tags) ps = Some n"
  then show "tagsHere n = filter (\<lambda>t. segments (fullPath t) = ps) tags"
    by (rule nodeAt_buildTree_tags)
next
  fix n assume "n \<in> set (subnodes (buildTree tags))"
  then show "\<exists>ps. nodeAt (buildTree tags) ps = Some n"
    by (rule subnodes_nodeAt [OF wfNode_buildTree])
next
  fix ps n assume "nodeAt (buildTree tags) ps = Some n"
  then show "full n = join ps" by (rule nodeAt_buildTree_full(1))
next
  fix ps n k assume ps: "nodeAt (buildTree tags) ps = Some n" and k: "k < length ps"
  have "ps = take (Suc k) ps @ drop (Suc k) ps" by simp
  with ps have "nodeAt (buildTree tags) (take (Suc k) ps @ drop (Suc k) ps) = Some n" by simp
  from nodeAt_append [OF this]
  obtain m where m: "nodeAt (buildTree tags) (take (Suc k) ps) = Some m" by blast
  have "take (Suc k) ps \<noteq> []" using k by (cases ps) auto
  from nodeAt_buildTree_full(3) [OF m this] have "name m = ps ! k"
    using k by (simp add: take_Suc_conv_app_nth)
  with m show "\<exists>m. nodeAt (buildTree tags) (take (Suc k) ps) = Some m \<and> name m = ps ! k"
    by blast
qed

lemma segs_tA: "segments (fullPath tA) = [[0x61], [0x62]]"
  by (simp add: tA_def fullPath_def segments_def trim_def isWhiteSpace_def slash_def)

lemma segs_tB: "segments (fullPath tB) = [[0x61]]"
  by (simp add: tB_def fullPath_def segments_def slash_def)

text \<open>
  On the two example tags: the node at \<open>a/b\<close> holds exactly the first tag, its full
  path is \<open>"a/b"\<close> and its name \<open>"b"\<close>.
\<close>

theorem buildTree_spec_witness:
  "tA \<in> set [tA, tB] \<and>
   (\<exists>n. nodeAt (buildTree [tA, tB]) [[0x61], [0x62]] = Some n \<and> n \<in> set (subnodes (buildTree [tA, tB]))
        \<and> tA \<in> set (tagsHere n) \<and> tagsHere n = [tA] \<and> full n = [0x61, 0x2F, 0x62] \<and> name n = [0x62])"
proof -
  note spec = buildTree_spec [of "[tA, tB]"]
  have mem: "tA \<in> set [tA, tB]" by simp
  from spec mem obtain n where n: "nodeAt (buildTree [tA, tB]) (segments (fullPath tA)) = Some n"
    by blast
  have sub: "n \<in> set (subnodes (buildTree [tA, tB]))"
    using n by (rule nodeAt_subnodes)
  from spec mem sub n have here: "tA \<in> set (tagsHere n)" by blast
  from spec n have "tagsHere n = filter (\<lambda>t. segments (fullPath t) = segments (fullPath tA)) [tA, tB]"
    by blast
  then have tags: "tagsHere n = [tA]" by (simp add: segs_tA segs_tB)
  from spec n have fl: "full n = join (segments (fullPath tA))"
    and nm: "\<forall>k < length (segments (fullPath tA)).
               \<exists>m. nodeAt (buildTree [tA, tB]) (take (Suc k) (segments (fullPath tA))) = Some m
                    \<and> name m = segments (fullPath tA) ! k"
    by blast+
  have len: "Suc 0 < length (segments (fullPath tA))" by (simp add: segs_tA)
  have tk: "take (Suc (Suc 0)) (segments (fullPath tA)) = segments (fullPath tA)"
    by (simp add: segs_tA)
  have nth: "segments (fullPath tA) ! Suc 0 = [0x62]" by (simp add: segs_tA)
  from nm len obtain m
    where "nodeAt (buildTree [tA, tB]) (take (Suc (Suc 0)) (segments (fullPath tA))) = Some m"
      and "name m = segments (fullPath tA) ! Suc 0"
    by blast
  then have "name n = [0x62]" unfolding tk nth n by simp
  with mem n sub here tags fl show ?thesis by (simp add: segs_tA slash_def)
qed

section \<open>findNode on built trees\<close>

lemma findLoop_nodeAt:
  "findLoop root cur ps = (case nodeAt cur ps of None \<Rightarrow> root | Some n \<Rightarrow> n)"
  by (induction ps arbitrary: cur) (auto split: option.splits)

text \<open>
  C4. On the tree of any list of tags, \<open>findNode\<close> at the \<open>full\<close> of a node of the tree
  returns that node; at an undefined path, at the empty path and at a path whose
  segments lead to no node it returns the root.
\<close>

theorem findNode_spec:
  "(\<forall>n \<in> set (subnodes (buildTree tags)). findNode (buildTree tags) (Some (full n)) = n)
   \<and> findNode (buildTree tags) None = buildTree tags
   \<and> findNode (buildTree tags) (Some []) = buildTree tags
   \<and> (\<forall>p. nodeAt (buildTree tags) (segments p) = None \<longrightarrow>
          findNode (buildTree tags) (Some p) = buildTree tags)"
proof (intro conjI ballI allI impI)
  fix n assume "n \<in> set (subnodes (buildTree tags))"
  from subnodes_nodeAt [OF wfNode_buildTree this]
  obtain ps where ps: "nodeAt (buildTree tags) ps = Some n" by blast
  note fl = nodeAt_buildTree_full(1) [OF ps] and good = nodeAt_buildTree_full(2) [OF ps]
  show "findNode (buildTree tags) (Some (full n)) = n"
  proof (cases "ps = []")
    case True
    with ps fl show ?thesis by (simp add: findNode_def)
  next
    case False
    then have "join ps \<noteq> []" using good by (rule join_nonempty)
    then show ?thesis
      using ps fl good by (simp add: findNode_def findLoop_nodeAt segments_join)
  qed
next
  show "findNode (buildTree tags) None = buildTree tags" by (simp add: findNode_def)
  show "findNode (buildTree tags) (Some []) = buildTree tags" by (simp add: findNode_def)
next
  fix p assume "nodeAt (buildTree tags) (segments p) = None"
  then show "findNode (buildTree tags) (Some p) = buildTree tags"
    by (simp add: findNode_def findLoop_nodeAt)
qed

lemma buildTree_example:
  "buildTree [tA, tB] =
     TagNode [] [] [([0x61], TagNode [0x61] [0x61]
                       [([0x62], TagNode [0x62] [0x61, 0x2F, 0x62] [] [tA])] [tB])] []"
  by (simp add: buildTree_def addTag_def segs_tA segs_tB Let_def slash_def)

text \<open>
  On the tree of the two example tags: \<open>"a/b"\<close> finds the node it names, \<open>"a/x"\<close>
  names no node and falls back to the root.
\<close>

theorem findNode_spec_witness:
  "TagNode [0x62] [0x61, 0x2F, 0x62] [] [tA] \<in> set (subnodes (buildTree [tA, tB]))
   \<and> findNode (buildTree [tA, tB]) (Some [0x61, 0x2F, 0x62]) = TagNode [0x62] [0x61, 0x2F, 0x62] [] [tA]
   \<and> nodeAt (buildTree [tA, tB]) (segments [0x61, 0x2F, 0x78]) = None
   \<and> findNode (buildTree [tA, tB]) (Some [0x61, 0x2F, 0x78]) = buildTree [tA, tB]"
proof -
  note spec = findNode_spec [of "[tA, tB]"]
  have mem: "TagNode [0x62] [0x61, 0x2F, 0x62] [] [tA] \<in> set (subnodes (buildTree [tA, tB]))"
    by (simp add: buildTree_example)
  with spec have 1: "findNode (buildTree [tA, tB]) (Some (full (TagNode [0x62] [0x61, 0x2F, 0x62] [] [tA])))
      = TagNode [0x62] [0x61, 0x2F, 0x62] [] [tA]"
    by blast
  have none: "nodeAt (buildTree [tA, tB]) (segments [0x61, 0x2F, 0x78]) = None"
    by (simp add: buildTree_example segments_def slash_def)
  with spec have 2: "findNode (buildTree [tA, tB]) (Some [0x61, 0x2F, 0x78]) = buildTree [tA, tB]"
    by blast
  from mem 1 none 2 show ?thesis by simp
qed

section \<open>Aggregations over a subtree\<close>

lemma set_dedupe [simp]: "set (dedupe xs) = set xs"
  by (induction xs rule: dedupe.induct) auto

lemma distinct_dedupe [simp]: "distinct (dedupe xs)"
  by (induction xs rule: dedupe.induct) auto

lemma length_dedupe: "length (dedupe xs) = card (set xs)"
  using distinct_card [OF distinct_dedupe, of xs] by simp

lemma set_dfsIds:
  "set (dfsIds n) = (\<Union>m \<in> set (subnodes n). tag_id ` set (tagsHere m))"
  by (induction n rule: dfsIds.induct) auto

lemma set_dfsDocs:
  "set (dfsDocs n) =
     (\<Union>m \<in> set (subnodes n). \<Union>t \<in> set (tagsHere m).
        set (case item_ids t of None \<Rightarrow> [] | Some ids \<Rightarrow> ids))"
  by (induction n rule: dfsDocs.induct) auto

text \<open>
  C5. \<open>collectDescendantTagIds n\<close> has no duplicates, and an id is in it exactly when it
  is the id of a tag in \<open>tagsHere\<close> of \<open>n\<close> or of a descendant of \<open>n\<close>.
\<close>

theorem collectDescendantTagIds_spec:
  "distinct (collectDescendantTagIds n)
   \<and> set (collectDescendantTagIds n) = {tag_id t |t m. m \<in> set (subnodes n) \<and> t \<in> set (tagsHere m)}"
  by (auto simp: collectDescendantTagIds_def set_dfsIds)

text \<open>
  C6. \<open>countUniqueDocs n\<close> is the number of distinct document ids in \<open>item_ids\<close> of the
  tags stored in the subtree of \<open>n\<close>.
\<close>

theorem countUniqueDocs_spec:
  "countUniqueDocs n =
     card (\<Union>m \<in> set (subnodes n). \<Union>t \<in> set (tagsHere m).
             set (case item_ids t of None \<Rightarrow> [] | Some ids \<Rightarrow> ids))"
  by (simp add: countUniqueDocs_def length_dedupe set_dfsDocs)

text \<open>The example folder tree holds the tag ids 3 and 4.\<close>

theorem collectDescendantTagIds_spec_witness:
  "distinct (collectDescendantTagIds exNode) \<and> set (collectDescendantTagIds exNode) = {[0x33], [0x34]}"
proof -
  have "{tag_id t |t m. m \<in> set (subnodes exNode) \<and> t \<in> set (tagsHere m)}
        = tag_id ` (\<Union>m \<in> set (subnodes exNode). set (tagsHere m))"
    by blast
  also have "\<dots> = {[0x33], [0x34]}"
    by (auto simp: exNode_def tC_def tD_def)
  finally show ?thesis
    using collectDescendantTagIds_spec [of exNode] by simp
qed

text \<open>Document \<open>d\<close> is linked to both tags of the example tree and counted once.\<close>

theorem countUniqueDocs_spec_witness: "countUniqueDocs exNode = 2"
proof -
  have "(\<Union>m \<in> set (subnodes exNode). \<Union>t \<in> set (tagsHere m).
             set (case item_ids t of None \<Rightarrow> [] | Some ids \<Rightarrow> ids)) = {[0x64], [0x65]}"
    by (auto simp: exNode_def tC_def tD_def)
  then show ?thesis
    using countUniqueDocs_spec [of exNode] by simp
qed

section \<open>Documents of a subtree\<close>

lemma seenInv_addDoc: "seenInv st \<Longrightarrow> seenInv (addDoc st d)"
  by (cases st) (auto simp: seenInv_def)

lemma seenInv_foldl: "seenInv st \<Longrightarrow> seenInv (foldl addDoc st ds)"
  by (induction ds arbitrary: st) (simp_all add: seenInv_addDoc)

lemma seenInv_tags:
  "seenInv st \<Longrightarrow>
     seenInv (foldl (\<lambda>st tagId.
                  foldl addDoc st (case docsByTagId tagId of None \<Rightarrow> [] | Some docs \<Rightarrow> docs))
                st tagIds)"
  by (induction tagIds arbitrary: st) (simp_all add: seenInv_foldl)

lemma seenInv_init: "seenInv ([], {})"
  by (simp add: seenInv_def)

lemma distinct_getDocsForTags: "distinct (map document_uid (getDocsForTags tagIds docsByTagId))"
  using seenInv_tags [OF seenInv_init, of docsByTagId tagIds]
  by (simp add: getDocsForTags_def seenInv_def)

lemma docsLoop_distinct:
  assumes "docsLoop getChildren docsByTagId stack st = Some out" and "seenInv st"
  shows "distinct (map document_uid out)"
proof -
  have "seenInv st \<longrightarrow> distinct (map document_uid out)"
  proof (rule docsLoop.raw_induct
          [where P = "\<lambda>getChildren docsByTagId stack st out.
                        seenInv st \<longrightarrow> distinct (map document_uid out)", OF _ assms(1)],
         goal_cases)
    case (1 loop gc m stack st out)
    show ?case
    proof (cases "stack = []")
      case True
      with 1(2) show ?thesis by (auto simp: seenInv_def)
    next
      case False
      with 1(2) have
        "loop gc m (butlast stack @ gc (last stack))
           (foldl addDoc st (getDocsForTags (tagIdsHere (last stack)) m)) = Some out"
        by simp
      from 1(1) [OF this] show ?thesis by (simp add: seenInv_foldl)
    qed
  qed
  with assms(2) show ?thesis by simp
qed

lemma docsLoop_Nil: "docsLoop getChildren docsByTagId [] st = Some (fst st)"
  by (subst docsLoop.simps) simp

lemma docsLoop_snoc:
  "docsLoop getChildren docsByTagId (rest @ [n]) st =
     docsLoop getChildren docsByTagId (rest @ getChildren n)
       (foldl addDoc st (getDocsForTags (tagIdsHere n) docsByTagId))"
  by (subst docsLoop.simps) simp

lemma returnsBelow_list:
  "\<forall>c \<in> set cs. returnsBelow getChildren docsByTagId c \<Longrightarrow>
     \<exists>st'. docsLoop getChildren docsByTagId (rest @ cs) st = docsLoop getChildren docsByTagId rest st'"
proof (induction cs arbitrary: st rule: rev_induct)
  case Nil
  show ?case by (intro exI) simp
next
  case (snoc c cs)
  from snoc.prems have "returnsBelow getChildren docsByTagId c" by simp
  then obtain st1 where
    "docsLoop getChildren docsByTagId ((rest @ cs) @ [c]) st = docsLoop getChildren docsByTagId (rest @ cs) st1"
    unfolding returnsBelow_def by blast
  moreover from snoc.IH [of st1] snoc.prems obtain st2 where
    "docsLoop getChildren docsByTagId (rest @ cs) st1 = docsLoop getChildren docsByTagId rest st2"
    by auto
  ultimately show ?case by (intro exI [of _ st2]) simp
qed

lemma returnsBelow_node:
  assumes "childrenOnly getChildren"
  shows "returnsBelow getChildren docsByTagId n"
proof (induction n)
  case (TagNode nm fl chs ths)
  have "\<forall>c \<in> set (getChildren (TagNode nm fl chs ths)). returnsBelow getChildren docsByTagId c"
  proof
    fix c assume "c \<in> set (getChildren (TagNode nm fl chs ths))"
    with assms [unfolded childrenOnly_def, rule_format, of "TagNode nm fl chs ths"]
    have "c \<in> snd ` set chs" by auto
    then obtain kc where kc: "kc \<in> set chs" "c = snd kc" by auto
    have "snd kc \<in> Basic_BNFs.snds kc" by (cases kc) simp
    with kc have "c \<in> Basic_BNFs.snds kc" by simp
    with kc(1) show "returnsBelow getChildren docsByTagId c" by (rule TagNode.IH)
  qed
  then have "\<exists>st'. docsLoop getChildren docsByTagId (rest @ getChildren (TagNode nm fl chs ths)) st
                 = docsLoop getChildren docsByTagId rest st'" for rest st
    by (rule returnsBelow_list)
  then show ?case
    unfolding returnsBelow_def docsLoop_snoc by blast
qed

lemma docsInSubtree_returns:
  assumes "childrenOnly getChildren"
  shows "\<exists>out. docsInSubtree root docsByTagId getChildren = Some out"
proof -
  from returnsBelow_node [OF assms, of docsByTagId root]
  obtain st' where "docsLoop getChildren docsByTagId ([] @ [root]) ([], {})
                      = docsLoop getChildren docsByTagId [] st'"
    unfolding returnsBelow_def by blast
  then show ?thesis by (simp add: docsInSubtree_def docsLoop_Nil)
qed

text \<open>
  C9. The list \<open>getDocsForTags\<close> returns has every document uid at most once. So has the
  list \<open>docsInSubtree\<close> returns, for any \<open>getChildren\<close>; and \<open>docsInSubtree\<close> does
  return when \<open>getChildren\<close> yields children of its argument only.
\<close>

theorem docs_distinct_spec:
  "distinct (map document_uid (getDocsForTags tagIds docsByTagId))
   \<and> (\<forall>out. docsInSubtree root docsByTagId getChildren = Some out \<longrightarrow>
              distinct (map document_uid out))
   \<and> (childrenOnly getChildren \<longrightarrow>
         (\<exists>out. docsInSubtree root docsByTagId getChildren = Some out))"
  using distinct_getDocsForTags docsLoop_distinct [OF _ seenInv_init] docsInSubtree_returns
  by (auto simp: docsInSubtree_def)

lemma docsLoop_step:
  "stack \<noteq> [] \<Longrightarrow>
     docsLoop getChildren docsByTagId stack st =
       docsLoop getChildren docsByTagId (butlast stack @ getChildren (last stack))
         (foldl addDoc st (getDocsForTags (tagIdsHere (last stack)) docsByTagId))"
  by (subst docsLoop.simps) simp

lemma childrenOnly_mapChildren: "childrenOnly mapChildren"
  by (simp add: childrenOnly_def mapChildren_def)

lemma docsInSubtree_example: "docsInSubtree exFolder exDocs mapChildren = Some [dX, dY]"
  by (simp add: docsInSubtree_def docsLoop_step docsLoop_Nil exFolder_def mapChildren_def
        tagIdsHere_def getDocsForTags_def exDocs_def tF_def tG_def dX_def dY_def)

text \<open>
  In the example folder, document \<open>x\<close> is loaded under the tags of both nodes and
  listed once.
\<close>

theorem docs_distinct_spec_witness:
  "childrenOnly mapChildren
   \<and> docsInSubtree exFolder exDocs mapChildren = Some [dX, dY]
   \<and> distinct (map document_uid [dX, dY])
   \<and> getDocsForTags [[0x35], [0x36]] exDocs = [dX, dY]
   \<and> distinct (map document_uid (getDocsForTags [[0x35], [0x36]] exDocs))"
proof -
  note spec = docs_distinct_spec [of "[[0x35], [0x36]]" exDocs exFolder mapChildren]
  have "getDocsForTags [[0x35], [0x36]] exDocs = [dX, dY]"
    by (simp add: getDocsForTags_def exDocs_def dX_def dY_def)
  with spec childrenOnly_mapChildren docsInSubtree_example show ?thesis by simp
qed

section \<open>toggleFolderSelection\<close>

lemma foldl_delete:
  "foldl (\<lambda>next d. if selectedUnder next tid (document_uid d)
                    then next(document_uid d := None) else next) prev ds
   = (\<lambda>u. if u \<in> document_uid ` set ds \<and> selectedUnder prev tid u then None else prev u)"
proof (induction ds arbitrary: prev)
  case Nil
  then show ?case by simp
next
  case (Cons d ds)
  show ?case
    unfolding foldl_Cons Cons.IH
    by (auto simp: fun_eq_iff selectedUnder_def split: option.splits)
qed

lemma foldl_select:
  "foldl (\<lambda>next d. next(document_uid d \<mapsto> tag)) prev ds
   = (\<lambda>u. if u \<in> document_uid ` set ds then Some tag else prev u)"
proof (induction ds arbitrary: prev)
  case Nil
  then show ?case by simp
next
  case (Cons d ds)
  show ?case
    unfolding foldl_Cons Cons.IH by (auto simp: fun_eq_iff)
qed

lemma toggleUpdater_eq:
  "toggleUpdater tag eligible prev =
     (if \<exists>d \<in> set eligible. selectedUnder prev (tag_id tag) (document_uid d)
      then (\<lambda>u. if u \<in> document_uid ` set eligible \<and> selectedUnder prev (tag_id tag) u
                 then None else prev u)
      else (\<lambda>u. if u \<in> document_uid ` set eligible then Some tag else prev u))"
  by (simp add: toggleUpdater_def Let_def list_ex_iff foldl_delete foldl_select)

text \<open>
  C3, as stated, fails: an eligible document selected under another tag does not keep
  its entry when the folder is selected. Document \<open>x\<close> is selected in subfolder \<open>g\<close>
  (tag 6); toggling folder \<open>f\<close> (tag 5), in which nothing is selected under tag 5,
  maps \<open>x\<close> to tag 5.
\<close>

theorem toggleFolderSelection_counterexample:
  "toggleFolderSelection exFolder exDocs mapChildren [[0x78] \<mapsto> tG]
     = Some [[0x78] \<mapsto> tF, [0x79] \<mapsto> tF]
   \<and> getPrimaryTag exFolder = Some tF
   \<and> tag_id tG \<noteq> tag_id tF
   \<and> ([[0x78] \<mapsto> tF, [0x79] \<mapsto> tF] :: selection) [0x78]
       \<noteq> ([[0x78] \<mapsto> tG] :: selection) [0x78]"
proof -
  have el: "eligibleDocs tF [dX, dY] = [dX, dY]"
    by (simp add: eligibleDocs_def docTagIds_def dX_def dY_def tF_def)
  have prim: "getPrimaryTag exFolder = Some tF"
    by (simp add: getPrimaryTag_def exFolder_def)
  have ne: "tag_id tG \<noteq> tag_id tF" by (simp add: tF_def tG_def)
  have "toggleUpdater tF [dX, dY] [[0x78] \<mapsto> tG] = [[0x78] \<mapsto> tF, [0x79] \<mapsto> tF]"
    using ne by (simp add: toggleUpdater_def selectedUnder_def dX_def dY_def)
  then have "toggleFolderSelection exFolder exDocs mapChildren [[0x78] \<mapsto> tG]
     = Some [[0x78] \<mapsto> tF, [0x79] \<mapsto> tF]"
    by (simp add: toggleFolderSelection_def prim docsInSubtree_example el)
  moreover have "tG \<noteq> tF" using ne by auto
  ultimately show ?thesis using prim ne by simp
qed

text \<open>
  C3, amended. For a folder node with a primary tag whose subtree has an eligible
  document, \<open>toggleFolderSelection\<close> returns when \<open>docsInSubtree\<close> does, and then: if an
  eligible document is selected under that tag, exactly the entries of the eligible
  documents selected under that tag are removed and every other entry (of another
  document, or of a document selected under another tag) is unchanged; otherwise every
  eligible document is mapped to that tag, also one that was selected under another
  tag, and the entries of the documents that are not eligible are unchanged.
\<close>

theorem toggleFolderSelection_spec:
  assumes "getPrimaryTag node = Some tag"
    and "docsInSubtree node documentsByTagId getChildren = Some subtree"
    and "eligibleDocs tag subtree \<noteq> []"
  shows "\<exists>next. toggleFolderSelection node documentsByTagId getChildren prev = Some next \<and>
     (if \<exists>d \<in> set (eligibleDocs tag subtree). selectedUnder prev (tag_id tag) (document_uid d)
      then \<forall>u. next u =
             (if u \<in> document_uid ` set (eligibleDocs tag subtree) \<and> selectedUnder prev (tag_id tag) u
              then None else prev u)
      else \<forall>u. next u =
             (if u \<in> document_uid ` set (eligibleDocs tag subtree) then Some tag else prev u))"
proof -
  have "toggleFolderSelection node documentsByTagId getChildren prev
          = Some (toggleUpdater tag (eligibleDocs tag subtree) prev)"
    using assms by (simp add: toggleFolderSelection_def)
  then show ?thesis
    by (cases "\<exists>d \<in> set (eligibleDocs tag subtree).
                  selectedUnder prev (tag_id tag) (document_uid d)")
       (simp_all add: toggleUpdater_eq)
qed


text \<open>
  In the example folder with \<open>x\<close> selected under the folder's tag and \<open>y\<close> under
  another one: the toggle removes \<open>x\<close> and keeps \<open>y\<close>.
\<close>

theorem toggleFolderSelection_spec_witness:
  "getPrimaryTag exFolder = Some tF
   \<and> docsInSubtree exFolder exDocs mapChildren = Some [dX, dY]
   \<and> eligibleDocs tF [dX, dY] \<noteq> []
   \<and> toggleFolderSelection exFolder exDocs mapChildren [[0x78] \<mapsto> tF, [0x79] \<mapsto> tG]
       = Some [[0x79] \<mapsto> tG]"
proof -
  let ?prev = "[[0x78] \<mapsto> tF, [0x79] \<mapsto> tG] :: selection"
  have el: "eligibleDocs tF [dX, dY] = [dX, dY]"
    by (simp add: eligibleDocs_def docTagIds_def dX_def dY_def tF_def)
  then have el_ne: "eligibleDocs tF [dX, dY] \<noteq> []" by simp
  have prim: "getPrimaryTag exFolder = Some tF"
    by (simp add: getPrimaryTag_def exFolder_def)
  from toggleFolderSelection_spec [OF prim docsInSubtree_example el_ne, of ?prev]
  obtain nxt where nxt: "toggleFolderSelection exFolder exDocs mapChildren ?prev = Some nxt"
    and ch: "if \<exists>d \<in> set (eligibleDocs tF [dX, dY]). selectedUnder ?prev (tag_id tF) (document_uid d)
      then \<forall>u. nxt u =
             (if u \<in> document_uid ` set (eligibleDocs tF [dX, dY]) \<and> selectedUnder ?prev (tag_id tF) u
              then None else ?prev u)
      else \<forall>u. nxt u =
             (if u \<in> document_uid ` set (eligibleDocs tF [dX, dY]) then Some tF else ?prev u)"
    by blast
  have any: "\<exists>d \<in> set (eligibleDocs tF [dX, dY]). selectedUnder ?prev (tag_id tF) (document_uid d)"
    unfolding el by (simp add: selectedUnder_def dX_def dY_def)
  with ch have "\<forall>u. nxt u =
             (if u \<in> document_uid ` set (eligibleDocs tF [dX, dY]) \<and> selectedUnder ?prev (tag_id tF) u
              then None else ?prev u)"
    by simp
  then have "nxt = [[0x79] \<mapsto> tG]"
    unfolding el by (auto simp: fun_eq_iff selectedUnder_def dX_def dY_def tF_def tG_def)
  with nxt prim docsInSubtree_example el_ne show ?thesis by simp
qed

section \<open>The folder checkbox\<close>

lemma filter_all_iff: "length (filter P xs) = length xs \<longleftrightarrow> (\<forall>x \<in> set xs. P x)"
  using sum_length_filter_compl [of P xs] by (auto simp: filter_empty_conv)

lemma filter_some_iff: "0 < length (filter P xs) \<longleftrightarrow> (\<exists>x \<in> set xs. P x)"
  by (auto simp: filter_empty_conv)

lemma filter_notall_iff: "length (filter P xs) < length xs \<longleftrightarrow> (\<exists>x \<in> set xs. \<not> P x)"
  by (simp add: less_le filter_all_iff)

lemma folderCheckbox_eq:
  assumes "getPrimaryTag c = Some ft"
    and "docsInSubtree c documentsByTagId getChildren = Some subtreeDocs"
  shows "folderCheckbox c documentsByTagId getChildren perTagTotals selectedFolder
           selectedFolderTotal selectedDocs =
         Some \<lparr>folderChecked =
                 (0 < selectionTotalForTag (Some ft) (selectedFolder = Some (full c))
                        selectedFolderTotal (cachedTotal (Some ft) perTagTotals)
                        (eligibleDocs ft subtreeDocs)
                  \<and> int (selectedForTag (Some ft) selectedDocs (eligibleDocs ft subtreeDocs))
                      = selectionTotalForTag (Some ft) (selectedFolder = Some (full c))
                          selectedFolderTotal (cachedTotal (Some ft) perTagTotals)
                          (eligibleDocs ft subtreeDocs)),
               folderIndeterminate =
                 (0 < selectedForTag (Some ft) selectedDocs (eligibleDocs ft subtreeDocs)
                  \<and> int (selectedForTag (Some ft) selectedDocs (eligibleDocs ft subtreeDocs))
                      < selectionTotalForTag (Some ft) (selectedFolder = Some (full c))
                          selectedFolderTotal (cachedTotal (Some ft) perTagTotals)
                          (eligibleDocs ft subtreeDocs))\<rparr>"
  using assms by (simp add: folderCheckbox_def Let_def)

lemma selectionTotal_uncached:
  assumes "cachedTotal (Some ft) perTagTotals = None"
    and "selectedFolder \<noteq> Some (full c) \<or> selectedFolderTotal = None"
  shows "selectionTotalForTag (Some ft) (selectedFolder = Some (full c)) selectedFolderTotal
           (cachedTotal (Some ft) perTagTotals) el = int (length el)"
  using assms by (auto simp: selectionTotalForTag_def)

text \<open>
  C2, as stated, fails: with a cached total above the number of loaded documents the
  folder is not checked although every eligible document is selected. The example
  folder has two eligible documents, both selected under its tag 5, and
  \<open>perTagTotals\<close> gives tag 5 a total of 3: the checkbox is indeterminate.
\<close>

theorem folderCheckbox_counterexample:
  "folderCheckbox exFolder exDocs mapChildren (Some [[0x35] \<mapsto> 3]) None None
       [[0x78] \<mapsto> tF, [0x79] \<mapsto> tF]
     = Some \<lparr>folderChecked = False, folderIndeterminate = True\<rparr>
   \<and> getPrimaryTag exFolder = Some tF
   \<and> docsInSubtree exFolder exDocs mapChildren = Some [dX, dY]
   \<and> eligibleDocs tF [dX, dY] = [dX, dY]
   \<and> selectionTotalForTag (Some tF) False None (cachedTotal (Some tF) (Some [[0x35] \<mapsto> 3]))
         [dX, dY] = 3
   \<and> selectedUnder [[0x78] \<mapsto> tF, [0x79] \<mapsto> tF] (tag_id tF) (document_uid dX)
   \<and> selectedUnder [[0x78] \<mapsto> tF, [0x79] \<mapsto> tF] (tag_id tF) (document_uid dY)"
proof -
  have el: "eligibleDocs tF [dX, dY] = [dX, dY]"
    by (simp add: eligibleDocs_def docTagIds_def dX_def dY_def tF_def)
  have prim: "getPrimaryTag exFolder = Some tF"
    by (simp add: getPrimaryTag_def exFolder_def)
  have tot: "selectionTotalForTag (Some tF) False None
               (cachedTotal (Some tF) (Some [[0x35] \<mapsto> 3])) [dX, dY] = 3"
    by (simp add: selectionTotalForTag_def cachedTotal_def tF_def)
  have sx: "selectedUnder [[0x78] \<mapsto> tF, [0x79] \<mapsto> tF] (tag_id tF) (document_uid dX)"
    and sy: "selectedUnder [[0x78] \<mapsto> tF, [0x79] \<mapsto> tF] (tag_id tF) (document_uid dY)"
    by (simp_all add: selectedUnder_def dX_def dY_def)
  have cnt: "selectedForTag (Some tF) [[0x78] \<mapsto> tF, [0x79] \<mapsto> tF] [dX, dY] = 2"
    using sx sy by (simp add: selectedForTag_def)
  have "folderCheckbox exFolder exDocs mapChildren (Some [[0x35] \<mapsto> 3]) None None
       [[0x78] \<mapsto> tF, [0x79] \<mapsto> tF]
     = Some \<lparr>folderChecked = False, folderIndeterminate = True\<rparr>"
    unfolding folderCheckbox_eq [OF prim docsInSubtree_example] el
    by (simp add: tot cnt)
  with prim docsInSubtree_example el tot sx sy show ?thesis by simp
qed

text \<open>
  C2, amended. For a folder with a primary tag and any selection, the checkbox is
  computed whenever \<open>docsInSubtree\<close> returns (as it does when \<open>getChildren\<close> yields
  children only), and then: it is checked exactly when the selection total of the
  folder's tag is positive and equal to the number of eligible documents selected
  under that tag; it is indeterminate exactly when that number is positive and below
  the selection total; it is never both. When the selection total is the number of
  eligible documents, as it is when no total is cached for the tag and the folder is
  not the selected folder with a known total, it is checked exactly when there is an
  eligible document and every eligible document is selected under the tag, and
  indeterminate exactly when some but not all of them are.
\<close>

theorem folderCheckbox_spec:
  assumes prim: "getPrimaryTag c = Some ft"
  shows
  "(childrenOnly getChildren \<longrightarrow>
      folderCheckbox c documentsByTagId getChildren perTagTotals selectedFolder
        selectedFolderTotal selectedDocs \<noteq> None)
   \<and> (\<forall>subtreeDocs. docsInSubtree c documentsByTagId getChildren = Some subtreeDocs \<longrightarrow>
        (\<exists>box. folderCheckbox c documentsByTagId getChildren perTagTotals selectedFolder
                  selectedFolderTotal selectedDocs = Some box
           \<and> (let el = eligibleDocs ft subtreeDocs;
                   tot = selectionTotalForTag (Some ft) (selectedFolder = Some (full c))
                           selectedFolderTotal (cachedTotal (Some ft) perTagTotals) el;
                   sel = (\<lambda>d. selectedUnder selectedDocs (tag_id ft) (document_uid d))
               in (folderChecked box \<longleftrightarrow> 0 < tot \<and> int (length (filter sel el)) = tot)
                \<and> (folderIndeterminate box \<longleftrightarrow>
                      0 < length (filter sel el) \<and> int (length (filter sel el)) < tot)
                \<and> \<not> (folderChecked box \<and> folderIndeterminate box)
                \<and> (cachedTotal (Some ft) perTagTotals = None
                      \<and> (selectedFolder \<noteq> Some (full c) \<or> selectedFolderTotal = None)
                    \<longrightarrow> tot = int (length el))
                \<and> (tot = int (length el) \<longrightarrow>
                      (folderChecked box \<longleftrightarrow> el \<noteq> [] \<and> (\<forall>d \<in> set el. sel d))
                      \<and> (folderIndeterminate box \<longleftrightarrow>
                            (\<exists>d \<in> set el. sel d) \<and> (\<exists>d \<in> set el. \<not> sel d))))))"
proof (intro conjI impI allI)
  assume "childrenOnly getChildren"
  from docsInSubtree_returns [OF this]
  obtain out where "docsInSubtree c documentsByTagId getChildren = Some out" by blast
  from folderCheckbox_eq [OF prim this]
  show "folderCheckbox c documentsByTagId getChildren perTagTotals selectedFolder
          selectedFolderTotal selectedDocs \<noteq> None"
    by simp
next
  fix subtreeDocs
  assume sub: "docsInSubtree c documentsByTagId getChildren = Some subtreeDocs"
  define el where "el = eligibleDocs ft subtreeDocs"
  define tot where "tot = selectionTotalForTag (Some ft) (selectedFolder = Some (full c))
                           selectedFolderTotal (cachedTotal (Some ft) perTagTotals) el"
  define sel where
    "sel = (\<lambda>d :: DocumentMetadata. selectedUnder selectedDocs (tag_id ft) (document_uid d))"
  define box where "box = \<lparr>folderChecked = (0 < tot \<and> int (length (filter sel el)) = tot),
                          folderIndeterminate =
                            (0 < length (filter sel el) \<and> int (length (filter sel el)) < tot)\<rparr>"
  have eq: "folderCheckbox c documentsByTagId getChildren perTagTotals selectedFolder
          selectedFolderTotal selectedDocs = Some box"
    unfolding folderCheckbox_eq [OF prim sub]
    by (simp add: box_def tot_def el_def sel_def selectedForTag_def)
  have unc: "cachedTotal (Some ft) perTagTotals = None
               \<and> (selectedFolder \<noteq> Some (full c) \<or> selectedFolderTotal = None)
             \<longrightarrow> tot = int (length el)"
    unfolding tot_def using selectionTotal_uncached [of ft perTagTotals selectedFolder c] by blast
  have len: "tot = int (length el) \<longrightarrow>
                      (folderChecked box \<longleftrightarrow> el \<noteq> [] \<and> (\<forall>d \<in> set el. sel d))
                      \<and> (folderIndeterminate box \<longleftrightarrow>
                            (\<exists>d \<in> set el. sel d) \<and> (\<exists>d \<in> set el. \<not> sel d))"
    using filter_all_iff [of sel el] filter_some_iff [of sel el] filter_notall_iff [of sel el]
    by (auto simp: box_def)
  have "(folderChecked box \<longleftrightarrow> 0 < tot \<and> int (length (filter sel el)) = tot)
        \<and> (folderIndeterminate box \<longleftrightarrow>
              0 < length (filter sel el) \<and> int (length (filter sel el)) < tot)
        \<and> \<not> (folderChecked box \<and> folderIndeterminate box)"
    by (auto simp: box_def)
  with eq unc len
  show "\<exists>box. folderCheckbox c documentsByTagId getChildren perTagTotals selectedFolder
                  selectedFolderTotal selectedDocs = Some box
           \<and> (let el = eligibleDocs ft subtreeDocs;
                   tot = selectionTotalForTag (Some ft) (selectedFolder = Some (full c))
                           selectedFolderTotal (cachedTotal (Some ft) perTagTotals) el;
                   sel = (\<lambda>d. selectedUnder selectedDocs (tag_id ft) (document_uid d))
               in (folderChecked box \<longleftrightarrow> 0 < tot \<and> int (length (filter sel el)) = tot)
                \<and> (folderIndeterminate box \<longleftrightarrow>
                      0 < length (filter sel el) \<and> int (length (filter sel el)) < tot)
                \<and> \<not> (folderChecked box \<and> folderIndeterminate box)
                \<and> (cachedTotal (Some ft) perTagTotals = None
                      \<and> (selectedFolder \<noteq> Some (full c) \<or> selectedFolderTotal = None)
                    \<longrightarrow> tot = int (length el))
                \<and> (tot = int (length el) \<longrightarrow>
                      (folderChecked box \<longleftrightarrow> el \<noteq> [] \<and> (\<forall>d \<in> set el. sel d))
                      \<and> (folderIndeterminate box \<longleftrightarrow>
                            (\<exists>d \<in> set el. sel d) \<and> (\<exists>d \<in> set el. \<not> sel d))))"
    unfolding Let_def el_def [symmetric] tot_def [symmetric] sel_def [symmetric]
    by (intro exI [of _ box]) blast
qed


text \<open>
  The example folder without cached totals, \<open>x\<close> selected under its tag and \<open>y\<close> not
  selected: indeterminate.
\<close>

theorem folderCheckbox_spec_witness:
  "getPrimaryTag exFolder = Some tF
   \<and> childrenOnly mapChildren
   \<and> docsInSubtree exFolder exDocs mapChildren = Some [dX, dY]
   \<and> cachedTotal (Some tF) None = None
   \<and> folderCheckbox exFolder exDocs mapChildren None None None [[0x78] \<mapsto> tF]
       = Some \<lparr>folderChecked = False, folderIndeterminate = True\<rparr>"
proof -
  let ?sel = "\<lambda>d :: DocumentMetadata. selectedUnder [[0x78] \<mapsto> tF] (tag_id tF) (document_uid d)"
  have el: "eligibleDocs tF [dX, dY] = [dX, dY]"
    by (simp add: eligibleDocs_def docTagIds_def dX_def dY_def tF_def)
  have prim: "getPrimaryTag exFolder = Some tF"
    by (simp add: getPrimaryTag_def exFolder_def)
  have unc: "cachedTotal (Some tF) None = None" by (simp add: cachedTotal_def)
  have sx: "?sel dX" and sy: "\<not> ?sel dY"
    by (simp_all add: selectedUnder_def dX_def dY_def)
  from folderCheckbox_spec [OF prim, of mapChildren exDocs None None None "[[0x78] \<mapsto> tF]"]
       docsInSubtree_example
  obtain box where box: "folderCheckbox exFolder exDocs mapChildren None None None [[0x78] \<mapsto> tF]
                           = Some box"
    and props: "let el = eligibleDocs tF [dX, dY];
                   tot = selectionTotalForTag (Some tF) (None = Some (full exFolder))
                           None (cachedTotal (Some tF) None) el;
                   sel = ?sel
               in (folderChecked box \<longleftrightarrow> 0 < tot \<and> int (length (filter sel el)) = tot)
                \<and> (folderIndeterminate box \<longleftrightarrow>
                      0 < length (filter sel el) \<and> int (length (filter sel el)) < tot)
                \<and> \<not> (folderChecked box \<and> folderIndeterminate box)
                \<and> (cachedTotal (Some tF) None = None
                      \<and> (None \<noteq> Some (full exFolder) \<or> (None :: int option) = None)
                    \<longrightarrow> tot = int (length el))
                \<and> (tot = int (length el) \<longrightarrow>
                      (folderChecked box \<longleftrightarrow> el \<noteq> [] \<and> (\<forall>d \<in> set el. sel d))
                      \<and> (folderIndeterminate box \<longleftrightarrow>
                            (\<exists>d \<in> set el. sel d) \<and> (\<exists>d \<in> set el. \<not> sel d)))"
    by blast
  from props unc have "(folderChecked box \<longleftrightarrow> (\<forall>d \<in> set [dX, dY]. ?sel d))
      \<and> (folderIndeterminate box \<longleftrightarrow> (\<exists>d \<in> set [dX, dY]. ?sel d) \<and> (\<exists>d \<in> set [dX, dY]. \<not> ?sel d))"
    unfolding Let_def el by simp
  with sx sy have "\<not> folderChecked box" "folderIndeterminate box" by simp_all
  then have "box = \<lparr>folderChecked = False, folderIndeterminate = True\<rparr>" by simp
  with box prim unc childrenOnly_mapChildren docsInSubtree_example show ?thesis by simp
qed

section \<open>The checkbox of a document row\<close>

text \<open>
  C10, as stated, fails: a document selected under another tag is not back where it
  was after two clicks. Document \<open>x\<close> is selected in subfolder \<open>g\<close> (tag 6) and its
  row in folder \<open>f\<close> (tag 5) is clicked twice: the entry is gone.
\<close>

theorem docCheckboxClick_counterexample:
  "docCheckboxClick (Some tF) [0x78] (docCheckboxClick (Some tF) [0x78] [[0x78] \<mapsto> tG])
     \<noteq> [[0x78] \<mapsto> tG]
   \<and> docCheckboxClick (Some tF) [0x78] [[0x78] \<mapsto> tG] = [[0x78] \<mapsto> tF]"
proof -
  have 1: "docCheckboxClick (Some tF) [0x78] [[0x78] \<mapsto> tG] = [[0x78] \<mapsto> tF]"
    by (simp add: docCheckboxClick_def selectedUnder_def tF_def tG_def)
  have 2: "docCheckboxClick (Some tF) [0x78] [[0x78] \<mapsto> tF] = Map.empty"
    by (simp add: docCheckboxClick_def selectedUnder_def)
  have "Map.empty \<noteq> [[0x78 :: jschar] \<mapsto> tG]"
    by (simp add: fun_eq_iff) 
  with 1 2 show ?thesis by simp
qed

text \<open>
  C10, amended. A click on the checkbox of a row with context tag \<open>tg\<close> changes no entry
  but that of the row's document. An absent entry becomes \<open>tg\<close>, an entry \<open>tg\<close>
  becomes absent, and from either of these two clicks give the selection back. An
  entry under a tag with another id becomes \<open>tg\<close> with the first click and absent with
  the second.
\<close>

theorem docCheckboxClick_spec:
  "(\<forall>u. u \<noteq> docId \<longrightarrow> docCheckboxClick (Some tg) docId prev u = prev u)
   \<and> (prev docId = None \<longrightarrow> docCheckboxClick (Some tg) docId prev docId = Some tg)
   \<and> (prev docId = Some tg \<longrightarrow> docCheckboxClick (Some tg) docId prev docId = None)
   \<and> (prev docId = None \<or> prev docId = Some tg \<longrightarrow>
        docCheckboxClick (Some tg) docId (docCheckboxClick (Some tg) docId prev) = prev)
   \<and> (\<forall>tg'. prev docId = Some tg' \<and> tag_id tg' \<noteq> tag_id tg \<longrightarrow>
        docCheckboxClick (Some tg) docId prev docId = Some tg
        \<and> docCheckboxClick (Some tg) docId (docCheckboxClick (Some tg) docId prev) docId = None)"
  by (auto simp: docCheckboxClick_def selectedUnder_def fun_eq_iff)

text \<open>Three selections: the document absent, selected under the row's tag, selected under another tag.\<close>

theorem docCheckboxClick_spec_witness:
  "docCheckboxClick (Some tF) [0x78] [[0x79] \<mapsto> tG] [0x79] = Some tG
   \<and> docCheckboxClick (Some tF) [0x78] [[0x79] \<mapsto> tG] [0x78] = Some tF
   \<and> docCheckboxClick (Some tF) [0x78] (docCheckboxClick (Some tF) [0x78] [[0x79] \<mapsto> tG])
       = [[0x79] \<mapsto> tG]
   \<and> docCheckboxClick (Some tF) [0x78] [[0x78] \<mapsto> tF] [0x78] = None
   \<and> docCheckboxClick (Some tF) [0x78] [[0x78] \<mapsto> tG] [0x78] = Some tF"
proof -
  have ne: "tag_id tG \<noteq> tag_id tF" by (simp add: tF_def tG_def)
  show ?thesis
    using docCheckboxClick_spec [of "[0x78]" tF "[[0x79] \<mapsto> tG]"]
          docCheckboxClick_spec [of "[0x78]" tF "[[0x78] \<mapsto> tF]"]
          docCheckboxClick_spec [of "[0x78]" tF "[[0x78] \<mapsto> tG]"] ne
    by simp
qed

section \<open>handleShare\<close>

lemma shareAll_None_iff: "shareAll shareTag rs = None \<longleftrightarrow> (\<forall>r \<in> set rs. shareTag r = None)"
  by (induction rs) (auto split: option.splits)

text \<open>
  The default message of the \<open>catch\<close> block is never empty when the translation of
  \<open>shareError\<close> is not: an empty translation of \<open>shareForbidden\<close> falls back to it
  through \<open>||\<close>. Only a string \<open>detail\<close> replaces the message unchecked.
\<close>

lemma errorMessage_default:
  assumes "tShareError \<noteq> []" and "\<forall>d. data e = Some d \<longrightarrow> detail d = None"
  shows "errorMessage tForbidden tShareError e \<noteq> []"
  using assms by (auto simp: errorMessage_def Let_def split: option.splits)

text \<open>
  C7. The code at the input where it does not do what the claim says. The pending
  list has one recipient and the request is rejected with status 400 and the empty
  string as \<open>detail\<close>: \<open>shareError\<close> becomes the empty string, no alert is rendered
  and the failure is silent, while the pending list and the query stay as they were.
  The same call rejected with a 403 without \<open>detail\<close> shows the alert, also when the
  translation of \<open>shareForbidden\<close> is empty.
\<close>

theorem handleShare_empty_detail:
  "pendingRecipients st0 \<noteq> []
   \<and> shareAll (failWith eEmptyDetail) (pendingRecipients st0) = Some eEmptyDetail
   \<and> shareError (handleShare [0x46] [0x45] (failWith eEmptyDetail) None st0) = Some []
   \<and> \<not> alertShown (handleShare [0x46] [0x45] (failWith eEmptyDetail) None st0)
   \<and> pendingRecipients (handleShare [0x46] [0x45] (failWith eEmptyDetail) None st0) = [r1]
   \<and> searchQuery (handleShare [0x46] [0x45] (failWith eEmptyDetail) None st0) = [0x71]
   \<and> shareError (handleShare [] [0x45] (failWith eForbidden) None st0) = Some [0x45]
   \<and> alertShown (handleShare [] [0x45] (failWith eForbidden) None st0)"
  by (simp add: handleShare_def st0_def failWith_def eEmptyDetail_def eForbidden_def
        errorMessage_def errorStatus_def alertShown_def Let_def)

text \<open>
  What \<open>handleShare\<close> does with a non-empty pending list on every input. If a share
  request fails, \<open>shareError\<close> is set to the message of the \<open>catch\<close> block and the
  alert is rendered when that message is not empty; the pending list, which stays
  non-empty, and the search query are left as they were. The pending list is cleared
  exactly when every share request succeeds, and then the search query is cleared
  too. The sharing state is ended in both cases.
\<close>

lemma handleShare_failure:
  assumes "pendingRecipients st \<noteq> []"
  shows
  "(\<forall>e. shareAll shareTag (pendingRecipients st) = Some e \<longrightarrow>
       shareError (handleShare tForbidden tShareError shareTag onShared st)
         = Some (errorMessage tForbidden tShareError e)
       \<and> (errorMessage tForbidden tShareError e \<noteq> [] \<longrightarrow>
            alertShown (handleShare tForbidden tShareError shareTag onShared st))
       \<and> (tShareError \<noteq> [] \<and> (\<forall>d. data e = Some d \<longrightarrow> detail d \<noteq> Some []) \<longrightarrow>
            alertShown (handleShare tForbidden tShareError shareTag onShared st))
       \<and> pendingRecipients (handleShare tForbidden tShareError shareTag onShared st)
            = pendingRecipients st
       \<and> searchQuery (handleShare tForbidden tShareError shareTag onShared st) = searchQuery st)
   \<and> ((\<exists>r \<in> set (pendingRecipients st). shareTag r \<noteq> None) \<longleftrightarrow>
        (\<exists>e. shareAll shareTag (pendingRecipients st) = Some e))
   \<and> (pendingRecipients (handleShare tForbidden tShareError shareTag onShared st) = [] \<longleftrightarrow>
        (\<forall>r \<in> set (pendingRecipients st). shareTag r = None))
   \<and> ((\<forall>r \<in> set (pendingRecipients st). shareTag r = None) \<longrightarrow>
        searchQuery (handleShare tForbidden tShareError shareTag onShared st) = [])
   \<and> \<not> isSharing (handleShare tForbidden tShareError shareTag onShared st)"
proof (intro conjI allI impI)
  fix e assume e: "shareAll shareTag (pendingRecipients st) = Some e"
  with assms show
    "shareError (handleShare tForbidden tShareError shareTag onShared st)
       = Some (errorMessage tForbidden tShareError e)"
    "pendingRecipients (handleShare tForbidden tShareError shareTag onShared st)
       = pendingRecipients st"
    "searchQuery (handleShare tForbidden tShareError shareTag onShared st) = searchQuery st"
    by (simp_all add: handleShare_def Let_def)
  show "alertShown (handleShare tForbidden tShareError shareTag onShared st)"
    if "errorMessage tForbidden tShareError e \<noteq> []"
    using that assms e by (simp add: handleShare_def Let_def alertShown_def)
  assume "tShareError \<noteq> [] \<and> (\<forall>d. data e = Some d \<longrightarrow> detail d \<noteq> Some [])"
  then have "errorMessage tForbidden tShareError e \<noteq> []"
    by (auto simp: errorMessage_def Let_def split: option.splits)
  with assms e show "alertShown (handleShare tForbidden tShareError shareTag onShared st)"
    by (simp add: handleShare_def Let_def alertShown_def)
next
  show "(\<exists>r \<in> set (pendingRecipients st). shareTag r \<noteq> None) \<longleftrightarrow>
        (\<exists>e. shareAll shareTag (pendingRecipients st) = Some e)"
    using shareAll_None_iff [of shareTag "pendingRecipients st"] by auto
next
  show "pendingRecipients (handleShare tForbidden tShareError shareTag onShared st) = [] \<longleftrightarrow>
        (\<forall>r \<in> set (pendingRecipients st). shareTag r = None)"
    using assms shareAll_None_iff [of shareTag "pendingRecipients st"]
    by (cases "shareAll shareTag (pendingRecipients st)")
       (auto simp: handleShare_def Let_def split: option.splits)
next
  assume "\<forall>r \<in> set (pendingRecipients st). shareTag r = None"
  then have "shareAll shareTag (pendingRecipients st) = None"
    by (simp add: shareAll_None_iff)
  with assms show "searchQuery (handleShare tForbidden tShareError shareTag onShared st) = []"
    by (simp add: handleShare_def Let_def split: option.splits)
next
  show "\<not> isSharing (handleShare tForbidden tShareError shareTag onShared st)"
    using assms by (simp add: handleShare_def Let_def split: option.splits)
qed

text \<open>A request rejected with 403 and no \<open>detail\<close>: the translated message is shown.\<close>

lemma handleShare_failure_example:
  "pendingRecipients st0 \<noteq> []
   \<and> shareAll (failWith eForbidden) (pendingRecipients st0) = Some eForbidden
   \<and> shareError (handleShare [0x46] [0x45] (failWith eForbidden) None st0) = Some [0x46]
   \<and> alertShown (handleShare [0x46] [0x45] (failWith eForbidden) None st0)
   \<and> pendingRecipients (handleShare [0x46] [0x45] (failWith eForbidden) None st0) = [r1]
   \<and> searchQuery (handleShare [0x46] [0x45] (failWith eForbidden) None st0) = [0x71]"
proof -
  have ne: "pendingRecipients st0 \<noteq> []" by (simp add: st0_def)
  have fail: "shareAll (failWith eForbidden) (pendingRecipients st0) = Some eForbidden"
    by (simp add: st0_def failWith_def)
  have msg: "errorMessage [0x46] [0x45] eForbidden = [0x46]"
    by (simp add: errorMessage_def errorStatus_def eForbidden_def)
  have nodata: "\<forall>d. data eForbidden = Some d \<longrightarrow> detail d \<noteq> Some []"
    by (simp add: eForbidden_def)
  from handleShare_failure [OF ne, of "failWith eForbidden" "[0x46]" "[0x45]" None] fail msg nodata
  show ?thesis using ne by (simp add: st0_def)
qed

end
